theory Spec2Isabelle
  imports Main "HOL-Library.Sublist"
begin

section \<open>Text primitives of the Python runtime\<close>

text \<open>
  A member is decoded as Latin-1, so every character of the decoded text is one of the 256
  code points that \<^typ>\<open>char\<close> holds, and a Python \<open>str\<close> is a \<^typ>\<open>string\<close>.
\<close>

definition is_space :: "char \<Rightarrow> bool" where
  \<comment> \<open>\<open>str.isspace\<close> and the regex class \<open>\s\<close> on code points below 256: 0x09-0x0D, 0x1C-0x1F,
     0x20, 0x85 and 0xA0.\<close>
  "is_space c \<longleftrightarrow> c \<in> set [CHR 0x09, CHR 0x0A, CHR 0x0B, CHR 0x0C, CHR 0x0D,
                             CHR 0x1C, CHR 0x1D, CHR 0x1E, CHR 0x1F, CHR 0x20, CHR 0x85, CHR 0xA0]"

definition is_linebreak :: "char \<Rightarrow> bool" where
  \<comment> \<open>the one-character line boundaries of \<open>str.splitlines\<close> below 256\<close>
  "is_linebreak c \<longleftrightarrow> c \<in> set [CHR 0x0A, CHR 0x0B, CHR 0x0C, CHR 0x0D,
                                 CHR 0x1C, CHR 0x1D, CHR 0x1E, CHR 0x85]"

fun splitlines_from :: "string \<Rightarrow> string \<Rightarrow> string list" where
  \<comment> \<open>\<open>str.splitlines(True)\<close>: the first argument is the line read so far; CR LF is one
     boundary; the terminator stays on its line; no empty last line.\<close>
  "splitlines_from cur [] = (if cur = [] then [] else [cur])"
| "splitlines_from cur [c] = [cur @ [c]]"
| "splitlines_from cur (c # d # cs) =
     (if c = CHR 0x0D \<and> d = CHR 0x0A then (cur @ [c, d]) # splitlines_from [] cs
      else if is_linebreak c then (cur @ [c]) # splitlines_from [] (d # cs)
      else splitlines_from (cur @ [c]) (d # cs))"

definition splitlines :: "string \<Rightarrow> string list" where
  "splitlines s = splitlines_from [] s"

fun startswith :: "string \<Rightarrow> string \<Rightarrow> bool" where
  "startswith s [] = True"
| "startswith [] (p # ps) = False"
| "startswith (c # cs) (p # ps) = (c = p \<and> startswith cs ps)"

fun contains :: "string \<Rightarrow> string \<Rightarrow> bool" where
  \<comment> \<open>\<open>sub in s\<close>\<close>
  "contains [] sub = (sub = [])"
| "contains (c # cs) sub = (startswith (c # cs) sub \<or> contains cs sub)"

definition strip :: "string \<Rightarrow> string" where
  \<comment> \<open>\<open>str.strip()\<close>\<close>
  "strip s = rev (dropWhile is_space (rev (dropWhile is_space s)))"

function re_split_ws_from :: "string \<Rightarrow> string \<Rightarrow> string list" where
  \<comment> \<open>\<open>re.split(r'\s+', s)\<close>: the pieces between the maximal runs of whitespace; the first
     argument is the piece read so far.\<close>
  "re_split_ws_from cur [] = [cur]"
| "re_split_ws_from cur (c # cs) =
     (if is_space c then cur # re_split_ws_from [] (dropWhile is_space cs)
      else re_split_ws_from (cur @ [c]) cs)"
  by pat_completeness auto
termination
  by (relation "measure (\<lambda>(cur, s). length s)")
     (auto simp: less_Suc_eq_le length_dropWhile_le)

definition re_split_ws :: "string \<Rightarrow> string list" where
  "re_split_ws s = re_split_ws_from [] s"

function ws_tokens :: "string \<Rightarrow> string list" where
  \<comment> \<open>the whitespace-delimited tokens of a string, in the words of the specification: its
     maximal runs of non-whitespace characters, left to right\<close>
  "ws_tokens [] = []"
| "ws_tokens (c # cs) =
     (if is_space c then ws_tokens cs
      else (c # takeWhile (\<lambda>x. \<not> is_space x) cs) # ws_tokens (dropWhile (\<lambda>x. \<not> is_space x) cs))"
  by pat_completeness auto
termination
  by (relation "measure length") (auto simp: less_Suc_eq_le length_dropWhile_le)


definition lower_char :: "char \<Rightarrow> char" where
  \<comment> \<open>\<open>str.lower\<close> on one code point below 256: A-Z, and the Latin-1 capitals 0xC0-0xDE
     but for the multiplication sign 0xD7\<close>
  "lower_char c =
     (let n = (of_char c :: nat)
      in if (65 \<le> n \<and> n \<le> 90) \<or> (192 \<le> n \<and> n \<le> 222 \<and> n \<noteq> 215)
         then char_of (n + 32) else c)"

definition lower :: "string \<Rightarrow> string" where
  "lower s = map lower_char s"

definition endswith :: "string \<Rightarrow> string \<Rightarrow> bool" where
  "endswith s suf = startswith (rev s) (rev suf)"

definition is_digit :: "char \<Rightarrow> bool" where
  \<comment> \<open>the regex class \<open>\d\<close> below 256, and the digits of a decimal literal\<close>
  "is_digit c \<longleftrightarrow> 48 \<le> (of_char c :: nat) \<and> (of_char c :: nat) \<le> 57"

fun join :: "string \<Rightarrow> string list \<Rightarrow> string" where
  \<comment> \<open>\<open>sep.join(parts)\<close>\<close>
  "join sep [] = []"
| "join sep [x] = x"
| "join sep (x # y # ys) = x @ sep @ join sep (y # ys)"

subsection \<open>Paths (posixpath)\<close>

definition rfind :: "string \<Rightarrow> char \<Rightarrow> int" where
  \<comment> \<open>\<open>p.rfind(c)\<close>: the last index of \<open>c\<close>, or -1\<close>
  "rfind p c =
     (if c \<in> set p then int (length p) - 1 - int (length (takeWhile (\<lambda>x. x \<noteq> c) (rev p)))
      else - 1)"

definition basename :: "string \<Rightarrow> string" where
  \<comment> \<open>\<open>os.path.basename\<close>: what follows the last slash\<close>
  "basename p = drop (nat (rfind p (CHR ''/'') + 1)) p"

definition splitext :: "string \<Rightarrow> string \<times> string" where
  \<comment> \<open>\<open>os.path.splitext\<close>: split at the last dot, when it comes after the last slash and
     some character between that slash and the dot is not a dot (the loop over
     \<open>filenameIndex\<close> looks for such a character in \<open>p[sepIndex+1:dotIndex]\<close>)\<close>
  "splitext p =
     (let sepIndex = rfind p (CHR ''/'');
          dotIndex = rfind p (CHR ''.'')
      in if dotIndex > sepIndex \<and>
            list_ex (\<lambda>c. c \<noteq> CHR ''.'')
              (take (nat dotIndex - nat (sepIndex + 1)) (drop (nat (sepIndex + 1)) p))
         then (take (nat dotIndex) p, drop (nat dotIndex) p)
         else (p, []))"

definition path_join :: "string \<Rightarrow> string \<Rightarrow> string" where
  \<comment> \<open>\<open>os.path.join(a, b)\<close>\<close>
  "path_join a b =
     (if startswith b ''/'' then b
      else if a = [] \<or> endswith a ''/'' then a @ b
      else a @ ''/'' @ b)"

section \<open>Configuration\<close>

definition TARGET_COLUMNS_MAP :: "(string \<times> string) list" where
  \<comment> \<open>the dict literal, in insertion order; 0x27 is the apostrophe\<close>
  "TARGET_COLUMNS_MAP =
     [(''Freq(Hz)'', ''frequency (Hz)''),
      ([CHR ''Z'', CHR 0x27] @ ''(a)'', ''Z_real (Ohm)''),
      ([CHR ''Z'', CHR 0x27, CHR 0x27] @ ''(b)'', ''Z_imag (Ohm)'')]"

section \<open>Exceptions, diagnostics and the file system\<close>

datatype exn =
    PermissionError
  | EmptyDataError
  | BadZipFile
  | UnicodeDecodeError
  | ValueError string
  | OtherException string

text \<open>
  \<open>exn\<close> holds the exceptions the handlers tell apart, and any other with its message.
  \<open>diag\<close> has one constructor for each message the script prints, with the values the
  message shows; the log of a run is the list of its messages.
\<close>

datatype diag =
    SkipNoEndHeader
  | SkipHeaderTooShort
  | SkipNoDataAfterHeader
  | WarnMissingColumns "string list"
  | SkipNoNumericData
  | Success nat string
  | FailPermissionDenied string
  | SkipEmptyData
  | FailParse exn
  | Processing string
  | SkipNotZip string
  | InfoNoAcFiles string
  | FoundAcFiles nat
  | ParsingMember string
  | FailDecode string exn
  | FailBadZip string
  | FailUnknown string exn
  | Banner
  | InputDirCreated
  | OutputDirCreated
  | NoMdatFiles
  | FoundMdatFiles nat
  | BatchDone

record filesystem =
  files :: "string \<rightharpoonup> string"   \<comment> \<open>the content of each file there is\<close>
  deny :: "string \<rightharpoonup> exn"       \<comment> \<open>what opening a path for writing raises, if it does\<close>

definition write_file :: "string \<Rightarrow> string \<Rightarrow> filesystem \<Rightarrow> exn + filesystem" where
  \<comment> \<open>open a path for writing and write the content: raises what \<open>deny\<close> holds for the path,
     creates or overwrites the file otherwise\<close>
  "write_file path content fs =
     (case deny fs path of
        Some e \<Rightarrow> Inl e
      | None \<Rightarrow> Inr (fs\<lparr>files := (files fs)(path \<mapsto> content)\<rparr>))"


section \<open>The pandas calls\<close>

text \<open>
  pandas is a library the script calls; what follows models the calls the script makes, with
  the arguments it passes, after the library's documented behaviour.
  What pandas makes of the tokens of a column (the type it infers for the column in
  \<open>read_csv\<close>, the number \<open>pd.to_numeric\<close> gives each cell, the rounding to a binary64
  float) is not modelled: it is the parameter \<open>convert\<close> of the runtime, and so is the text
  \<open>to_csv\<close> prints for a value, \<open>fmt_value\<close>. The model fixes only that a cell
  \<open>read_csv\<close> had to fill in has the missing value \<open>NaN\<close> after the conversion; a token
  that cannot be converted is one for which \<open>convert\<close> gives \<open>NaN\<close>.
\<close>

datatype fval =
    Fin bool nat int   \<comment> \<open>a finite float \<open>d * 10^e\<close>, with its sign bit\<close>
  | Infty bool         \<comment> \<open>an infinite float, negative when the flag is set\<close>
  | NaN                \<comment> \<open>the missing value\<close>
  | IntVal int         \<comment> \<open>a value of an integer column\<close>
  | BoolVal bool       \<comment> \<open>a value of a boolean column\<close>

record runtime =
  convert :: "string option list \<Rightarrow> string \<Rightarrow> fval"
    \<comment> \<open>\<open>convert col tok\<close>: the value \<open>pd.to_numeric(df[name], errors='coerce')\<close> holds where
       the column \<open>col\<close> of \<open>df\<close> was read from the token \<open>tok\<close>\<close>
  fmt_value :: "fval \<Rightarrow> string"
    \<comment> \<open>the text \<open>to_csv\<close> prints for a value\<close>
  utf8_decode :: "string \<Rightarrow> exn + string"
    \<comment> \<open>\<open>bytes.decode('utf-8')\<close>\<close>

definition cell_value :: "runtime \<Rightarrow> string option list \<Rightarrow> string option \<Rightarrow> fval" where
  \<comment> \<open>the value of one cell of the converted column: a cell that \<open>read_csv\<close> had to fill in
     is missing\<close>
  "cell_value rt col cell = (case cell of None \<Rightarrow> NaN | Some tok \<Rightarrow> convert rt col tok)"

definition to_numeric :: "runtime \<Rightarrow> string option list \<Rightarrow> fval list" where
  \<comment> \<open>\<open>pd.to_numeric(column, errors='coerce')\<close>: a value for each cell, in the order of the
     column\<close>
  "to_numeric rt col = map (cell_value rt col) col"

record 'a frame =
  columns :: "string list"
  rows :: "'a list list"

definition DataFrame :: "'a frame" where
  \<comment> \<open>\<open>pd.DataFrame()\<close>\<close>
  "DataFrame = \<lparr>columns = [], rows = []\<rparr>"

fun io_lines_from :: "string \<Rightarrow> string \<Rightarrow> string list" where
  \<comment> \<open>the lines an \<open>io.StringIO\<close> yields: terminated by LF only\<close>
  "io_lines_from cur [] = (if cur = [] then [] else [cur])"
| "io_lines_from cur (c # cs) =
     (if c = CHR 0x0A then (cur @ [c]) # io_lines_from [] cs
      else io_lines_from (cur @ [c]) cs)"

definition pad_row :: "nat \<Rightarrow> string list \<Rightarrow> string option list" where
  "pad_row w r = map Some r @ replicate (w - length r) None"

definition read_rows :: "string \<Rightarrow> string list list" where
  \<comment> \<open>the rows the python engine reads with a regex separator: each line stripped and split
     at runs of whitespace, blank lines dropped\<close>
  "read_rows data =
     filter (\<lambda>r. r \<noteq> [[]]) (map (\<lambda>l. re_split_ws (strip l)) (io_lines_from [] data))"

definition read_csv :: "string list \<Rightarrow> string \<Rightarrow> exn + string option frame" where
  \<comment> \<open>\<open>pd.read_csv(io.StringIO(data), sep=r'\s+', names=names, header=None, engine='python',
     on_bad_lines='skip')\<close>. Duplicate names are refused. When the first row has more fields than
     there are names, its \<open>k\<close> extra leading fields are taken as the index. A row with more
     than \<open>length names + k\<close> fields is a bad line and is skipped; a row with fewer is padded
     with missing cells. The cells hold the tokens as read: what pandas makes of them is
     \<open>convert\<close>.\<close>
  "read_csv names data =
     (if \<not> distinct names then Inl (ValueError ''Duplicate names are not allowed.'')
      else
        let content = read_rows data;
            k = (case content of [] \<Rightarrow> 0 | r # _ \<Rightarrow> length r - length names);
            col_len = length names + k
        in Inr \<lparr>columns = names,
                rows = map (\<lambda>r. drop k (pad_row col_len r))
                         (filter (\<lambda>r. length r \<le> col_len) content)\<rparr>)"

definition index_of :: "'a \<Rightarrow> 'a list \<Rightarrow> nat" where
  "index_of a xs = length (takeWhile (\<lambda>x. x \<noteq> a) xs)"

definition get_column :: "'a frame \<Rightarrow> string \<Rightarrow> 'a list" where
  \<comment> \<open>\<open>df[name]\<close>, for a name among the columns\<close>
  "get_column df name = map (\<lambda>r. r ! index_of name (columns df)) (rows df)"

definition set_column :: "string \<Rightarrow> 'a list \<Rightarrow> 'a frame \<Rightarrow> 'a frame" where
  \<comment> \<open>\<open>df[name] = series\<close> for a new name: the first column of an empty frame brings its rows,
     a later one is appended to the rows there are\<close>
  "set_column name series df =
     (if columns df = [] then \<lparr>columns = [name], rows = map (\<lambda>v. [v]) series\<rparr>
      else \<lparr>columns = columns df @ [name],
            rows = map (\<lambda>(r, v). r @ [v]) (zip (rows df) series)\<rparr>)"

fun extract_columns ::
  "runtime \<Rightarrow> (string \<times> string) list \<Rightarrow> string option frame \<Rightarrow> fval frame \<Rightarrow> string list
    \<Rightarrow> fval frame \<times> string list" where
  \<comment> \<open>the loop over \<open>TARGET_COLUMNS_MAP.items()\<close>, with \<open>extracted_df\<close> and \<open>missing_cols\<close>\<close>
  "extract_columns rt [] df extracted_df missing_cols = (extracted_df, missing_cols)"
| "extract_columns rt ((original_name, new_name) # ts) df extracted_df missing_cols =
     (if original_name \<in> set (columns df)
      then extract_columns rt ts df
             (set_column new_name (to_numeric rt (get_column df original_name)) extracted_df)
             missing_cols
      else extract_columns rt ts df extracted_df (missing_cols @ [original_name]))"

definition dropna :: "fval frame \<Rightarrow> fval frame" where
  \<comment> \<open>\<open>df.dropna()\<close>: drop every row that holds a missing value\<close>
  "dropna df = df\<lparr>rows := filter (\<lambda>r. NaN \<notin> set r) (rows df)\<rparr>"

definition is_empty :: "'a frame \<Rightarrow> bool" where
  \<comment> \<open>\<open>df.empty\<close>: no column or no row\<close>
  "is_empty df \<longleftrightarrow> columns df = [] \<or> rows df = []"

definition to_csv :: "runtime \<Rightarrow> char \<Rightarrow> fval frame \<Rightarrow> string" where
  \<comment> \<open>the text \<open>df.to_csv(path, index=False, sep=sep)\<close> writes: the header line, then one line
     for each row, in the order of the frame, each ended by LF. No field needs quoting: the
     names are those of \<open>TARGET_COLUMNS_MAP\<close> and the values are numbers or booleans.\<close>
  "to_csv rt sep df =
     concat (map (\<lambda>parts. join [sep] parts @ [CHR 0x0A])
                 (columns df # map (map (fmt_value rt)) (rows df)))"


section \<open>parse_ascii_content\<close>

fun find_end_header :: "nat \<Rightarrow> string list \<Rightarrow> int" where
  \<comment> \<open>the loop over \<open>enumerate(lines)\<close> with its \<open>break\<close>, from index \<open>i\<close> on; -1 when no
     line holds the marker\<close>
  "find_end_header i [] = - 1"
| "find_end_header i (line # ls) =
     (if contains line ''End Header:'' then int i else find_end_header (Suc i) ls)"

definition locate_table :: "string \<Rightarrow> diag + string list \<times> string" where
  \<comment> \<open>steps 1 to 4 and the text handed to \<open>io.StringIO\<close>: the diagnostic of an early return,
     or \<open>column_names\<close> and the data block\<close>
  "locate_table file_content =
     (let lines = splitlines file_content;
          end_header_index = find_end_header 0 lines
      in if end_header_index = - 1 then Inl SkipNoEndHeader
         else
           let header_line_index = end_header_index - 2
           in if header_line_index < 0 then Inl SkipHeaderTooShort
              else
                let header_line = strip (lines ! nat header_line_index);
                    column_names = re_split_ws header_line;
                    data_start_line = end_header_index + 1
                in if data_start_line \<ge> int (length lines) then Inl SkipNoDataAfterHeader
                   else Inr (column_names, concat (drop (nat data_start_line) lines)))"

definition data_rows :: "string list \<Rightarrow> string list list" where
  \<comment> \<open>the data rows of the specification: each line split into its whitespace-delimited
     tokens, a blank line giving no row\<close>
  "data_rows ls = filter (\<lambda>r. r \<noteq> []) (map ws_tokens ls)"

definition output_csv_path :: "string \<Rightarrow> string \<Rightarrow> string" where
  "output_csv_path output_dir output_base_name =
     path_join output_dir (output_base_name @ ''_extracted.csv'')"

definition output_txt_path :: "string \<Rightarrow> string \<Rightarrow> string" where
  "output_txt_path output_dir output_base_name =
     path_join output_dir (output_base_name @ ''_extracted.txt'')"

definition save_outputs ::
  "runtime \<Rightarrow> fval frame \<Rightarrow> string \<Rightarrow> string \<Rightarrow> filesystem
    \<Rightarrow> (exn + unit) \<times> diag list \<times> filesystem" where
  \<comment> \<open>step 8: the two \<open>to_csv\<close> calls, the comma-delimited one first\<close>
  "save_outputs rt extracted_df output_base_name output_dir fs =
     (case write_file (output_csv_path output_dir output_base_name)
             (to_csv rt (CHR '','') extracted_df) fs of
        Inl e \<Rightarrow> (Inl e, [], fs)
      | Inr fs1 \<Rightarrow>
          (case write_file (output_txt_path output_dir output_base_name)
                  (to_csv rt (CHR 0x09) extracted_df) fs1 of
             Inl e \<Rightarrow> (Inl e, [], fs1)
           | Inr fs2 \<Rightarrow>
               (Inr (),
                [Success (length (rows extracted_df))
                   (basename (output_csv_path output_dir output_base_name))],
                fs2)))"

definition extract_table :: "runtime \<Rightarrow> string option frame \<Rightarrow> fval frame \<times> diag list" where
  \<comment> \<open>steps 6 and 7 up to \<open>dropna\<close>: the cleaned frame and the warning printed\<close>
  "extract_table rt df =
     (let (extracted_df, missing_cols) = extract_columns rt TARGET_COLUMNS_MAP df DataFrame []
      in (dropna extracted_df,
          if missing_cols \<noteq> [] then [WarnMissingColumns missing_cols] else []))"

definition parsed_table :: "string \<Rightarrow> string option frame option" where
  \<comment> \<open>the frame \<open>df\<close> of step 5, when the run gets there\<close>
  "parsed_table file_content =
     (case locate_table file_content of
        Inl d \<Rightarrow> None
      | Inr (column_names, data) \<Rightarrow>
          (case read_csv column_names data of Inl e \<Rightarrow> None | Inr df \<Rightarrow> Some df))"

definition present_targets :: "'a frame \<Rightarrow> (string \<times> string) list" where
  \<comment> \<open>the entries of \<open>TARGET_COLUMNS_MAP\<close> whose original name is a column of the frame\<close>
  "present_targets df = filter (\<lambda>(original_name, new_name). original_name \<in> set (columns df))
                                TARGET_COLUMNS_MAP"

definition target_cells :: "string option frame \<Rightarrow> string option list \<Rightarrow> string option list" where
  \<comment> \<open>the cells of one row of \<open>df\<close> in the present target columns\<close>
  "target_cells df r =
     map (\<lambda>(original_name, new_name). r ! index_of original_name (columns df)) (present_targets df)"

definition numeric_cells ::
  "runtime \<Rightarrow> string option frame \<Rightarrow> (string \<times> string) list \<Rightarrow> string option list
    \<Rightarrow> fval list" where
  \<comment> \<open>the values of one row of \<open>df\<close> in the given target columns, each as its column is
     converted\<close>
  "numeric_cells rt df ts r =
     map (\<lambda>(original_name, new_name).
            cell_value rt (get_column df original_name) (r ! index_of original_name (columns df)))
         ts"

definition converted_row :: "runtime \<Rightarrow> string option frame \<Rightarrow> string option list \<Rightarrow> fval list" where
  \<comment> \<open>the values of one row of \<open>df\<close> in the present target columns\<close>
  "converted_row rt df r = numeric_cells rt df (present_targets df) r"


definition parse_ascii_try ::
  "runtime \<Rightarrow> string \<Rightarrow> string \<Rightarrow> string \<Rightarrow> filesystem
    \<Rightarrow> (exn + unit) \<times> diag list \<times> filesystem \<times> bool" where
  \<comment> \<open>the \<open>try\<close> block: what it raises if it raises, what it printed, the file system it
     leaves, and whether the local \<open>output_csv_path\<close> was bound\<close>
  "parse_ascii_try rt file_content output_base_name output_dir fs =
     (case locate_table file_content of
        Inl d \<Rightarrow> (Inr (), [d], fs, False)
      | Inr (column_names, data) \<Rightarrow>
          (case read_csv column_names data of
             Inl e \<Rightarrow> (Inl e, [], fs, False)
           | Inr df \<Rightarrow>
               let (extracted_df, warn) = extract_table rt df
               in if is_empty extracted_df then (Inr (), warn @ [SkipNoNumericData], fs, False)
                  else
                    let (r, msgs, fs') = save_outputs rt extracted_df output_base_name output_dir fs
                    in (r, warn @ msgs, fs', True)))"

definition except_clauses :: "string \<Rightarrow> bool \<Rightarrow> exn \<Rightarrow> exn + diag" where
  \<comment> \<open>the three handlers of \<open>parse_ascii_content\<close>: what is printed for an exception of the
     \<open>try\<close> block. The handler of \<open>PermissionError\<close> reads \<open>output_csv_path\<close>, and raises
     itself when that name is not bound.\<close>
  "except_clauses csv_path bound e =
     (case e of
        PermissionError \<Rightarrow>
          if bound then Inr (FailPermissionDenied (basename csv_path))
          else Inl (OtherException ''UnboundLocalError'')
      | EmptyDataError \<Rightarrow> Inr SkipEmptyData
      | _ \<Rightarrow> Inr (FailParse e))"

definition failure_diag :: "string \<Rightarrow> exn \<Rightarrow> diag" where
  \<comment> \<open>what the handlers print for an exception raised once \<open>output_csv_path\<close> is bound\<close>
  "failure_diag csv_path e =
     (case e of
        PermissionError \<Rightarrow> FailPermissionDenied (basename csv_path)
      | EmptyDataError \<Rightarrow> SkipEmptyData
      | _ \<Rightarrow> FailParse e)"

definition parse_ascii_content ::
  "runtime \<Rightarrow> string \<Rightarrow> string \<Rightarrow> string \<Rightarrow> filesystem
    \<Rightarrow> (exn + unit) \<times> diag list \<times> filesystem" where
  \<comment> \<open>the \<open>try\<close> block under its handlers\<close>
  "parse_ascii_content rt file_content output_base_name output_dir fs =
     (let (r, msgs, fs', bound) = parse_ascii_try rt file_content output_base_name output_dir fs
      in case r of
           Inr u \<Rightarrow> (Inr (), msgs, fs')
         | Inl e \<Rightarrow>
             (case except_clauses (output_csv_path output_dir output_base_name) bound e of
                Inl e' \<Rightarrow> (Inl e', msgs, fs')
              | Inr d \<Rightarrow> (Inr (), msgs @ [d], fs')))"

section \<open>process_mdat_file and main\<close>

datatype member_read = ReadOk string | ReadRaises exn

datatype archive =
    NotZip                                  \<comment> \<open>\<open>zipfile.is_zipfile\<close> is false\<close>
  | OpenRaises exn                          \<comment> \<open>\<open>zipfile.ZipFile(path)\<close> raises\<close>
  | Zip "(string \<times> member_read) list"       \<comment> \<open>the entries, in the order of \<open>namelist()\<close>\<close>

definition zip_read :: "(string \<times> member_read) list \<Rightarrow> string \<Rightarrow> member_read" where
  \<comment> \<open>\<open>zip_ref.read(name)\<close>: of two entries with one name the later one is read\<close>
  "zip_read entries name =
     (case map_of (rev entries) name of
        Some r \<Rightarrow> r
      | None \<Rightarrow> ReadRaises (OtherException ''KeyError''))"

definition decode_latin1 :: "string \<Rightarrow> exn + string" where
  \<comment> \<open>\<open>bytes.decode('latin-1')\<close>: every byte is a code point, nothing is refused\<close>
  "decode_latin1 file_data = Inr file_data"

definition run_match_at :: "string \<Rightarrow> string option" where
  \<comment> \<open>a match of \<open>Run(\d+)\<close>, ignoring case, at the start of the string: group 0\<close>
  "run_match_at s =
     (case s of
        r # u # n # rest \<Rightarrow>
          if (r = CHR ''R'' \<or> r = CHR ''r'') \<and> (u = CHR ''U'' \<or> u = CHR ''u'')
             \<and> (n = CHR ''N'' \<or> n = CHR ''n'') \<and> takeWhile is_digit rest \<noteq> []
          then Some ([r, u, n] @ takeWhile is_digit rest)
          else None
      | _ \<Rightarrow> None)"

fun re_search_run :: "string \<Rightarrow> string option" where
  \<comment> \<open>\<open>re.search(r'Run(\d+)', s, re.IGNORECASE)\<close>: the leftmost match\<close>
  "re_search_run [] = None"
| "re_search_run (c # cs) =
     (case run_match_at (c # cs) of
        Some m \<Rightarrow> Some m
      | None \<Rightarrow> re_search_run cs)"

definition run_at :: "string \<Rightarrow> nat \<Rightarrow> bool" where
  \<comment> \<open>in the words of the specification: the path holds \<open>Run\<close>, in any case, followed by a
     digit, at position \<open>k\<close>\<close>
  "run_at s k \<longleftrightarrow>
     (case drop k s of
        r # u # n # d # _ \<Rightarrow>
          (r = CHR ''R'' \<or> r = CHR ''r'') \<and> (u = CHR ''U'' \<or> u = CHR ''u'')
          \<and> (n = CHR ''N'' \<or> n = CHR ''n'') \<and> is_digit d
      | _ \<Rightarrow> False)"

definition derive_base_name :: "string \<Rightarrow> string \<Rightarrow> string" where
  \<comment> \<open>step 3 of the loop body: \<open>output_base_name\<close>\<close>
  "derive_base_name mdat_base sub_file_name =
     (case re_search_run sub_file_name of
        Some run_str \<Rightarrow> mdat_base @ ''-'' @ run_str
      | None \<Rightarrow>
          let sub_file_base = map (\<lambda>c. if c = CHR ''/'' then CHR ''_'' else c) sub_file_name
          in fst (splitext sub_file_base))"

fun for_members ::
  "runtime \<Rightarrow> string \<Rightarrow> string \<Rightarrow> (string \<times> member_read) list \<Rightarrow> string list \<Rightarrow> filesystem
    \<Rightarrow> (exn + unit) \<times> diag list \<times> filesystem" where
  \<comment> \<open>the loop over \<open>ac_files_in_zip\<close>: an exception of the body leaves the loop\<close>
  "for_members rt mdat_base output_dir entries [] fs = (Inr (), [], fs)"
| "for_members rt mdat_base output_dir entries (sub_file_name # rest) fs =
     (case zip_read entries sub_file_name of
        ReadRaises e \<Rightarrow> (Inl e, [ParsingMember sub_file_name], fs)
      | ReadOk file_data \<Rightarrow>
          (case (case decode_latin1 file_data of
                   Inr t \<Rightarrow> Inr (Inr t)
                 | Inl UnicodeDecodeError \<Rightarrow>
                     (case utf8_decode rt file_data of
                        Inr t \<Rightarrow> Inr (Inr t)
                      | Inl e \<Rightarrow> Inr (Inl e))
                 | Inl e \<Rightarrow> Inl e) of
             Inl e \<Rightarrow> (Inl e, [ParsingMember sub_file_name], fs)
           | Inr (Inl e) \<Rightarrow>
               let (r, msgs, fs') = for_members rt mdat_base output_dir entries rest fs
               in (r, ParsingMember sub_file_name # FailDecode sub_file_name e # msgs, fs')
           | Inr (Inr file_content) \<Rightarrow>
               let (r1, msgs1, fs1) =
                     parse_ascii_content rt file_content
                       (derive_base_name mdat_base sub_file_name) output_dir fs
               in (case r1 of
                     Inl e \<Rightarrow> (Inl e, ParsingMember sub_file_name # msgs1, fs1)
                   | Inr u \<Rightarrow>
                       let (r2, msgs2, fs2) =
                             for_members rt mdat_base output_dir entries rest fs1
                       in (r2, ParsingMember sub_file_name # msgs1 @ msgs2, fs2))))"

definition ac_files :: "(string \<times> member_read) list \<Rightarrow> string list" where
  \<comment> \<open>\<open>[f for f in zip_ref.namelist() if f.lower().endswith('.z')]\<close>\<close>
  "ac_files entries = filter (\<lambda>f. endswith (lower f) ''.z'') (map fst entries)"

definition readable :: "(string \<times> member_read) list \<Rightarrow> string \<Rightarrow> bool" where
  \<comment> \<open>\<open>zip_ref.read(name)\<close> returns\<close>
  "readable entries name = (case zip_read entries name of ReadOk data \<Rightarrow> True | ReadRaises e \<Rightarrow> False)"

definition archives_started :: "diag list \<Rightarrow> string list" where
  \<comment> \<open>the archives whose processing a log reports, in order\<close>
  "archives_started msgs = concat (map (\<lambda>d. case d of Processing b \<Rightarrow> [b] | _ \<Rightarrow> []) msgs)"

definition members_started :: "diag list \<Rightarrow> string list" where
  \<comment> \<open>the members whose parsing a log reports, in order\<close>
  "members_started msgs = concat (map (\<lambda>d. case d of ParsingMember n \<Rightarrow> [n] | _ \<Rightarrow> []) msgs)"

definition process_mdat_try ::
  "runtime \<Rightarrow> string \<Rightarrow> string \<Rightarrow> string \<Rightarrow> archive \<Rightarrow> filesystem
    \<Rightarrow> (exn + unit) \<times> diag list \<times> filesystem" where
  \<comment> \<open>the \<open>try\<close> block of \<open>process_mdat_file\<close>\<close>
  "process_mdat_try rt base_name mdat_base output_dir ar fs =
     (case ar of
        NotZip \<Rightarrow> (Inr (), [SkipNotZip base_name], fs)
      | OpenRaises e \<Rightarrow> (Inl e, [], fs)
      | Zip entries \<Rightarrow>
          let ac_files_in_zip = ac_files entries
          in if ac_files_in_zip = [] then (Inr (), [InfoNoAcFiles base_name], fs)
             else
               let (r, msgs, fs') =
                     for_members rt mdat_base output_dir entries ac_files_in_zip fs
               in (r, FoundAcFiles (length ac_files_in_zip) # msgs, fs'))"

definition process_mdat_file ::
  "runtime \<Rightarrow> string \<Rightarrow> string \<Rightarrow> archive \<Rightarrow> filesystem
    \<Rightarrow> (exn + unit) \<times> diag list \<times> filesystem" where
  \<comment> \<open>\<open>ar\<close> is what lies at \<open>file_path\<close>\<close>
  "process_mdat_file rt file_path output_dir ar fs =
     (let base_name = basename file_path;
          mdat_base = fst (splitext base_name);
          (r, msgs, fs') = process_mdat_try rt base_name mdat_base output_dir ar fs
      in case r of
           Inr u \<Rightarrow> (Inr (), Processing base_name # msgs, fs')
         | Inl BadZipFile \<Rightarrow> (Inr (), Processing base_name # msgs @ [FailBadZip base_name], fs')
         | Inl e \<Rightarrow> (Inr (), Processing base_name # msgs @ [FailUnknown base_name e], fs'))"

definition OUTPUT_FOLDER :: string where
  "OUTPUT_FOLDER = ''./Output_Data''"

fun for_archives ::
  "runtime \<Rightarrow> (string \<times> archive) list \<Rightarrow> filesystem \<Rightarrow> (exn + unit) \<times> diag list \<times> filesystem" where
  \<comment> \<open>the loop over \<open>files_to_process\<close>: an exception of the body leaves the loop\<close>
  "for_archives rt [] fs = (Inr (), [], fs)"
| "for_archives rt ((file_path, ar) # rest) fs =
     (let (r1, msgs1, fs1) = process_mdat_file rt file_path OUTPUT_FOLDER ar fs
      in case r1 of
           Inl e \<Rightarrow> (Inl e, msgs1, fs1)
         | Inr u \<Rightarrow>
             let (r2, msgs2, fs2) = for_archives rt rest fs1
             in (r2, msgs1 @ msgs2, fs2))"

definition main ::
  "runtime \<Rightarrow> bool \<Rightarrow> bool \<Rightarrow> (string \<times> archive) list \<Rightarrow> filesystem
    \<Rightarrow> (exn + unit) \<times> diag list \<times> filesystem" where
  \<comment> \<open>\<open>input_exists\<close> and \<open>output_exists\<close> tell whether the two folders exist;
     \<open>files_to_process\<close> is the deduplicated result of the two globs, each path with the
     archive that lies there\<close>
  "main rt input_exists output_exists files_to_process fs =
     (if \<not> input_exists then (Inr (), [Banner, InputDirCreated], fs)
      else
        let pre = Banner # (if \<not> output_exists then [OutputDirCreated] else [])
        in if files_to_process = [] then (Inr (), pre @ [NoMdatFiles], fs)
           else
             let (r, msgs, fs') = for_archives rt files_to_process fs
             in (case r of
                   Inl e \<Rightarrow> (Inl e, pre @ FoundMdatFiles (length files_to_process) # msgs, fs')
                 | Inr u \<Rightarrow>
                     (Inr (),
                      pre @ FoundMdatFiles (length files_to_process) # msgs @ [BatchDone],
                      fs')))"


section \<open>Sample inputs\<close>

text \<open>
  Inputs and a runtime on which the definitions are evaluated. The runtime is a stand-in, not
  pandas: it converts each token by itself, to the decimal it denotes, and prints a value as
  mantissa and power of ten. The theorems hold for every runtime.
\<close>

function show_nat :: "nat \<Rightarrow> string" where
  "show_nat n =
     (if n < 10 then [char_of (48 + n)]
      else show_nat (n div 10) @ [char_of (48 + n mod 10)])"
  by pat_completeness auto
termination
  by (relation "measure id") auto

declare show_nat.simps [simp del]

definition sci_text :: "fval \<Rightarrow> string" where
  \<comment> \<open>a float printed as mantissa and power of ten\<close>
  "sci_text v =
     (case v of
        Fin neg d e \<Rightarrow>
          (if neg then ''-'' else []) @ show_nat d @ ''e''
            @ (if e < 0 then ''-'' else []) @ show_nat (nat \<bar>e\<bar>)
      | Infty neg \<Rightarrow> (if neg then ''-inf'' else ''inf'')
      | NaN \<Rightarrow> []
      | IntVal i \<Rightarrow> (if i < 0 then ''-'' else []) @ show_nat (nat \<bar>i\<bar>)
      | BoolVal b \<Rightarrow> (if b then ''True'' else ''False''))"

definition digits_val :: "string \<Rightarrow> nat" where
  "digits_val ds = foldl (\<lambda>n c. 10 * n + ((of_char c :: nat) - 48)) 0 ds"

definition split_sign :: "string \<Rightarrow> bool \<times> string" where
  "split_sign s =
     (case s of
        [] \<Rightarrow> (False, [])
      | c # cs \<Rightarrow> if c = CHR ''-'' then (True, cs)
                 else if c = CHR ''+'' then (False, cs)
                 else (False, s))"

definition parse_exponent :: "string \<Rightarrow> int option" where
  "parse_exponent s =
     (case s of
        [] \<Rightarrow> Some 0
      | c # cs \<Rightarrow>
          if c = CHR ''e'' \<or> c = CHR ''E''
          then (let (neg, ds) = split_sign cs
                in if ds \<noteq> [] \<and> list_all is_digit ds
                   then Some (if neg then - int (digits_val ds) else int (digits_val ds))
                   else None)
          else None)"

definition parse_number :: "string \<Rightarrow> fval option" where
  \<comment> \<open>a numeric token: an optional sign, then \<open>inf\<close> or \<open>infinity\<close> in any case, or digits with
     an optional fraction and an optional exponent\<close>
  "parse_number tok =
     (let (neg, body) = split_sign tok
      in if lower body = ''inf'' \<or> lower body = ''infinity'' then Some (Infty neg)
         else
           let ip = takeWhile is_digit body;
               r1 = dropWhile is_digit body;
               fp = (case r1 of [] \<Rightarrow> []
                     | c # r \<Rightarrow> if c = CHR ''.'' then takeWhile is_digit r else []);
               r2 = (case r1 of [] \<Rightarrow> []
                     | c # r \<Rightarrow> if c = CHR ''.'' then dropWhile is_digit r else r1)
           in if ip = [] \<and> fp = [] then None
              else (case parse_exponent r2 of
                      None \<Rightarrow> None
                    | Some e \<Rightarrow> Some (Fin neg (digits_val (ip @ fp)) (e - int (length fp)))))"

definition sample_convert :: "string option list \<Rightarrow> string \<Rightarrow> fval" where
  \<comment> \<open>a conversion for the sample inputs: each token by itself, a numeric token to the float
     of the decimal it denotes, any other token to NaN\<close>
  "sample_convert col tok = (case parse_number tok of Some v \<Rightarrow> v | None \<Rightarrow> NaN)"

definition sample_runtime :: runtime where
  \<comment> \<open>cells converted by \<open>sample_convert\<close>, values printed by \<open>sci_text\<close>, a UTF-8 decoder
     that takes ASCII only\<close>
  "sample_runtime =
     \<lparr>convert = sample_convert,
      fmt_value = sci_text,
      utf8_decode = (\<lambda>data. if list_all (\<lambda>c. (of_char c :: nat) < 128) data then Inr data
                             else Inl UnicodeDecodeError)\<rparr>"

definition empty_fs :: filesystem where
  "empty_fs = \<lparr>files = Map.empty, deny = Map.empty\<rparr>"

definition sample_header :: string where
  \<comment> \<open>the three target names on one line\<close>
  "sample_header =
     ''Freq(Hz)  Z'' @ [CHR 0x27] @ ''(a)  Z'' @ [CHR 0x27, CHR 0x27] @ ''(b)''"

definition member_text :: "string \<Rightarrow> string \<Rightarrow> string" where
  \<comment> \<open>a member with the given header line, the marker two lines below it, and the given data\<close>
  "member_text header data =
     header @ [CHR 0x0D, CHR 0x0A] @ ''Units'' @ [CHR 0x0A]
       @ ''End Header:'' @ [CHR 0x0A] @ data"

definition sample_text :: "string \<Rightarrow> string" where
  "sample_text data = member_text sample_header data"

definition txt_denied_fs :: filesystem where
  \<comment> \<open>a file system that refuses to open one tab-delimited output for writing\<close>
  "txt_denied_fs =
     \<lparr>files = Map.empty, deny = [''out/m_extracted.txt'' \<mapsto> PermissionError]\<rparr>"

section \<open>Properties of the text primitives\<close>

lemma splitlines_examples:
  "splitlines (''a'' @ [CHR 0x0D, CHR 0x0A] @ ''b'' @ [CHR 0x0D] @ ''c'' @ [CHR 0x0B] @ ''d'')
     = [''a'' @ [CHR 0x0D, CHR 0x0A], ''b'' @ [CHR 0x0D], ''c'' @ [CHR 0x0B], ''d'']"
  "splitlines [] = []"
  "splitlines (''a'' @ [CHR 0x0A]) = [''a'' @ [CHR 0x0A]]"
  by code_simp+

lemma re_split_ws_examples:
  "re_split_ws [] = [[]]"
  "re_split_ws ''a  b'' = [''a'', ''b'']"
  "re_split_ws '' a '' = [[], ''a'', []]"
  by code_simp+

lemma io_lines_example:
  "io_lines_from [] (''a'' @ [CHR 0x0D] @ ''b'' @ [CHR 0x0A] @ ''c'' @ [CHR 0x0B] @ ''d''
                      @ [CHR 0x0A, CHR 0x0A] @ ''e'')
     = [''a'' @ [CHR 0x0D] @ ''b'' @ [CHR 0x0A], ''c'' @ [CHR 0x0B] @ ''d'' @ [CHR 0x0A],
        [CHR 0x0A], ''e'']"
  by code_simp

lemma splitext_examples:
  "splitext ''.z'' = (''.z'', [])"
  "splitext ''..z'' = (''..z'', [])"
  "splitext ''data_ac.z'' = (''data_ac'', ''.z'')"
  "splitext ''a.b.c'' = (''a.b'', ''.c'')"
  "splitext ''x/.z'' = (''x/.z'', [])"
  "splitext ''.a.z'' = (''.a'', ''.z'')"
  "splitext ''a.'' = (''a'', ''.'')"
  "splitext ''abc'' = (''abc'', [])"
  by code_simp+

lemma path_examples:
  "path_join ''out'' ''m'' = ''out/m''"
  "path_join ''out/'' ''m'' = ''out/m''"
  "path_join [] ''m'' = ''m''"
  "path_join ''out'' ''/m'' = ''/m''"
  "basename ''x/.z'' = ''.z''"
  "basename ''abc'' = ''abc''"
  by code_simp+

lemma parse_number_examples:
  "parse_number ''-1.23e-4'' = Some (Fin True 123 (- 6))"
  "parse_number ''1.'' = Some (Fin False 1 0)"
  "parse_number ''.5'' = Some (Fin False 5 (- 1))"
  "parse_number ''+Inf'' = Some (Infty False)"
  "parse_number ''-infinity'' = Some (Infty True)"
  "parse_number ''nan'' = None"
  "parse_number ''1e'' = None"
  "parse_number ''x'' = None"
  by code_simp+

lemma startswith_iff_prefix: "startswith s p \<longleftrightarrow> prefix p s"
  by (induction s p rule: startswith.induct) auto

lemma contains_iff_sublist: "contains s sub \<longleftrightarrow> sublist sub s"
proof (induction s)
  case Nil
  then show ?case by simp
next
  case (Cons c cs)
  then show ?case
    by (simp add: startswith_iff_prefix sublist_Cons_right)
qed

lemma find_end_header_none:
  "\<forall>l \<in> set ls. \<not> sublist ''End Header:'' l \<Longrightarrow> find_end_header k ls = - 1"
  by (induction ls arbitrary: k) (auto simp: contains_iff_sublist)

lemma find_end_header_first:
  "i < length ls \<Longrightarrow> sublist ''End Header:'' (ls ! i)
   \<Longrightarrow> \<forall>j<i. \<not> sublist ''End Header:'' (ls ! j)
   \<Longrightarrow> find_end_header k ls = int (k + i)"
proof (induction ls arbitrary: k i)
  case Nil
  then show ?case by simp
next
  case (Cons l ls)
  show ?case
  proof (cases i)
    case 0
    with Cons.prems show ?thesis by (simp add: contains_iff_sublist)
  next
    case (Suc i')
    from Cons.prems Suc have "\<not> sublist ''End Header:'' l" by auto
    moreover have "find_end_header (Suc k) ls = int (Suc k + i')"
      using Cons.prems Suc by (intro Cons.IH) auto
    ultimately show ?thesis using Suc by (simp add: contains_iff_sublist)
  qed
qed

lemma concat_splitlines_from: "concat (splitlines_from cur s) = cur @ s"
  by (induction cur s rule: splitlines_from.induct) auto

lemma concat_splitlines: "concat (splitlines s) = s"
  by (simp add: splitlines_def concat_splitlines_from)

lemma ws_tokens_dropWhile: "ws_tokens (dropWhile is_space s) = ws_tokens s"
  by (induction s) auto

lemma ws_tokens_all_space: "\<forall>c \<in> set w. is_space c \<Longrightarrow> ws_tokens w = []"
  by (induction w) auto

lemma last_dropWhile: "dropWhile P xs \<noteq> [] \<Longrightarrow> last (dropWhile P xs) = last xs"
  by (induction xs) (auto split: if_splits)

lemma takeWhile_append_hit:
  "\<exists>x \<in> set cs. is_space x \<Longrightarrow>
   takeWhile (\<lambda>x. \<not> is_space x) (cs @ b) = takeWhile (\<lambda>x. \<not> is_space x) cs"
  by (induction cs) auto

lemma dropWhile_append_hit:
  "\<exists>x \<in> set cs. is_space x \<Longrightarrow>
   dropWhile (\<lambda>x. \<not> is_space x) (cs @ b) = dropWhile (\<lambda>x. \<not> is_space x) cs @ b"
  by (induction cs) auto

lemma ws_tokens_append_left:
  "a = [] \<or> is_space (last a) \<Longrightarrow> ws_tokens (a @ b) = ws_tokens a @ ws_tokens b"
proof (induction a rule: ws_tokens.induct)
  case 1
  then show ?case by simp
next
  case (2 c cs)
  show ?case
  proof (cases "is_space c")
    case True
    have "cs = [] \<or> is_space (last cs)" using "2.prems" by (auto split: if_splits)
    with True "2.IH"(1) show ?thesis by simp
  next
    case False
    from "2.prems" False have ne: "cs \<noteq> []" and sp: "is_space (last cs)"
      by (auto split: if_splits)
    then have ex: "\<exists>x \<in> set cs. is_space x" using last_in_set by blast
    then have dne: "dropWhile (\<lambda>x. \<not> is_space x) cs \<noteq> []" by auto
    have tw: "takeWhile (\<lambda>x. \<not> is_space x) (cs @ b) = takeWhile (\<lambda>x. \<not> is_space x) cs"
      using ex by (rule takeWhile_append_hit)
    have dw: "dropWhile (\<lambda>x. \<not> is_space x) (cs @ b) = dropWhile (\<lambda>x. \<not> is_space x) cs @ b"
      using ex by (rule dropWhile_append_hit)
    have "last (dropWhile (\<lambda>x. \<not> is_space x) cs) = last cs"
      using dne by (rule last_dropWhile)
    with sp have "is_space (last (dropWhile (\<lambda>x. \<not> is_space x) cs))" by simp
    with "2.IH"(2) False
    have "ws_tokens (dropWhile (\<lambda>x. \<not> is_space x) cs @ b)
          = ws_tokens (dropWhile (\<lambda>x. \<not> is_space x) cs) @ ws_tokens b" by simp
    with False tw dw show ?thesis by simp
  qed
qed

lemma ws_tokens_append_spaces:
  "\<forall>c \<in> set w. is_space c \<Longrightarrow> ws_tokens (u @ w) = ws_tokens u"
proof (induction u rule: ws_tokens.induct)
  case 1
  then show ?case by (simp add: ws_tokens_all_space)
next
  case (2 c cs)
  show ?case
  proof (cases "is_space c")
    case True
    with 2 show ?thesis by simp
  next
    case False
    have tww: "takeWhile (\<lambda>x. \<not> is_space x) w = []" using "2.prems" by (cases w) auto
    have dww: "dropWhile (\<lambda>x. \<not> is_space x) w = w" using "2.prems" by (cases w) auto
    show ?thesis
    proof (cases "\<forall>x \<in> set cs. \<not> is_space x")
      case True
      have t1: "takeWhile (\<lambda>x. \<not> is_space x) (cs @ w) = cs"
        using True tww by (simp add: takeWhile_append2)
      have d1: "dropWhile (\<lambda>x. \<not> is_space x) (cs @ w) = w"
        using True dww by (simp add: dropWhile_append2)
      have t2: "takeWhile (\<lambda>x. \<not> is_space x) cs = cs"
        using True by (simp add: takeWhile_eq_all_conv)
      have d2: "dropWhile (\<lambda>x. \<not> is_space x) cs = []"
        using True by simp
      have w0: "ws_tokens w = []" using "2.prems" by (rule ws_tokens_all_space)
      show ?thesis using False by (simp add: t1 d1 t2 d2 w0)
    next
      case nall: False
      then have ex: "\<exists>x \<in> set cs. is_space x" by blast
      have tw: "takeWhile (\<lambda>x. \<not> is_space x) (cs @ w) = takeWhile (\<lambda>x. \<not> is_space x) cs"
        using ex by (rule takeWhile_append_hit)
      have dw: "dropWhile (\<lambda>x. \<not> is_space x) (cs @ w) = dropWhile (\<lambda>x. \<not> is_space x) cs @ w"
        using ex by (rule dropWhile_append_hit)
      from "2.IH"(2) False "2.prems"
      have "ws_tokens (dropWhile (\<lambda>x. \<not> is_space x) cs @ w)
            = ws_tokens (dropWhile (\<lambda>x. \<not> is_space x) cs)" by simp
      with False tw dw show ?thesis by simp
    qed
  qed
qed

lemma strip_decomp: "\<exists>w. (\<forall>c \<in> set w. is_space c) \<and> dropWhile is_space s = strip s @ w"
proof -
  let ?t = "dropWhile is_space s"
  have "rev ?t = takeWhile is_space (rev ?t) @ dropWhile is_space (rev ?t)" by simp
  then have "?t = rev (dropWhile is_space (rev ?t)) @ rev (takeWhile is_space (rev ?t))"
    by (metis rev_append rev_rev_ident)
  moreover have "\<forall>c \<in> set (rev (takeWhile is_space (rev ?t))). is_space c"
    by (auto dest: set_takeWhileD)
  ultimately show ?thesis unfolding strip_def by blast
qed

lemma ws_tokens_strip: "ws_tokens (strip s) = ws_tokens s"
proof -
  obtain w where w: "\<forall>c \<in> set w. is_space c" "dropWhile is_space s = strip s @ w"
    using strip_decomp by blast
  have "ws_tokens s = ws_tokens (strip s @ w)" using w(2) ws_tokens_dropWhile by metis
  then show ?thesis using w(1) by (simp add: ws_tokens_append_spaces)
qed

lemma strip_ends:
  "strip s \<noteq> [] \<Longrightarrow> \<not> is_space (hd (strip s)) \<and> \<not> is_space (last (strip s))"
proof -
  assume ne: "strip s \<noteq> []"
  let ?t = "dropWhile is_space s"
  let ?u = "dropWhile is_space (rev ?t)"
  from ne have une: "?u \<noteq> []" by (simp add: strip_def)
  then have "\<not> is_space (hd ?u)" using hd_dropWhile by blast
  then have l: "\<not> is_space (last (strip s))" using une by (simp add: strip_def last_rev)
  obtain w where w: "\<forall>c \<in> set w. is_space c" "?t = strip s @ w"
    using strip_decomp by blast
  from ne w(2) have tne: "?t \<noteq> []" by auto
  then have "\<not> is_space (hd ?t)" using hd_dropWhile by blast
  moreover have "hd ?t = hd (strip s)" using ne w(2) by (metis hd_append2)
  ultimately show ?thesis using l by simp
qed

lemma ws_tokens_run:
  "cur \<noteq> [] \<Longrightarrow> \<forall>c \<in> set cur. \<not> is_space c \<Longrightarrow>
   ws_tokens (cur @ r) = (cur @ takeWhile (\<lambda>x. \<not> is_space x) r) # ws_tokens (dropWhile (\<lambda>x. \<not> is_space x) r)"
  by (cases cur) (auto simp: takeWhile_append2 dropWhile_append2)

lemma re_split_ws_from_tokens:
  "\<forall>c \<in> set cur. \<not> is_space c \<Longrightarrow> s = [] \<or> \<not> is_space (last s)
   \<Longrightarrow> cur \<noteq> [] \<or> (s \<noteq> [] \<and> \<not> is_space (hd s))
   \<Longrightarrow> re_split_ws_from cur s = ws_tokens (cur @ s)"
proof (induction cur s rule: re_split_ws_from.induct)
  case (1 cur)
  then show ?case using ws_tokens_run [of cur "[]"] by simp
next
  case (2 cur c cs)
  show ?case
  proof (cases "is_space c")
    case True
    with "2.prems" have cne: "cur \<noteq> []" by auto
    let ?d = "dropWhile is_space cs"
    from "2.prems"(2) True have csne: "cs \<noteq> []" and lst: "\<not> is_space (last cs)"
      by (auto split: if_splits)
    then have "\<exists>x \<in> set cs. \<not> is_space x" using last_in_set by blast
    then have dne: "?d \<noteq> []" by auto
    then have hd: "\<not> is_space (hd ?d)" using hd_dropWhile by blast
    have "last ?d = last cs" using dne by (rule last_dropWhile)
    with lst have "\<not> is_space (last ?d)" by simp
    with "2.IH"(1) True dne hd have "re_split_ws_from [] ?d = ws_tokens ?d" by simp
    moreover have "ws_tokens (cur @ c # cs) = cur # ws_tokens ?d"
      using ws_tokens_run [OF cne "2.prems"(1), of "c # cs"] True
      by (simp add: ws_tokens_dropWhile)
    ultimately show ?thesis using True by simp
  next
    case False
    have "cs = [] \<or> \<not> is_space (last cs)" using "2.prems"(2) by (auto split: if_splits)
    with "2.IH"(2) False "2.prems"(1) show ?thesis by simp
  qed
qed

lemma strip_Nil_iff: "strip s = [] \<longleftrightarrow> ws_tokens s = []"
proof
  assume "strip s = []"
  then show "ws_tokens s = []" using ws_tokens_strip [of s] by simp
next
  assume e: "ws_tokens s = []"
  show "strip s = []"
  proof (rule ccontr)
    assume ne: "strip s \<noteq> []"
    then have "\<not> is_space (hd (strip s))" using strip_ends by blast
    then have "ws_tokens (strip s) \<noteq> []" using ne by (cases "strip s") auto
    with e show False by (simp add: ws_tokens_strip)
  qed
qed

lemma re_split_ws_strip:
  "re_split_ws (strip s) = (if ws_tokens s = [] then [[]] else ws_tokens s)"
proof (cases "strip s = []")
  case True
  then show ?thesis by (simp add: re_split_ws_def strip_Nil_iff [symmetric])
next
  case False
  then have "re_split_ws_from [] (strip s) = ws_tokens ([] @ strip s)"
    using strip_ends [OF False] by (intro re_split_ws_from_tokens) auto
  with False show ?thesis
    by (simp add: re_split_ws_def ws_tokens_strip strip_Nil_iff [symmetric])
qed

lemma ws_tokens_nonempty: "t \<in> set (ws_tokens s) \<Longrightarrow> t \<noteq> []"
  by (induction s rule: ws_tokens.induct) (auto split: if_splits)

lemma is_linebreak_space: "is_linebreak c \<Longrightarrow> is_space c"
  by (auto simp: is_linebreak_def is_space_def)

lemma lf_is_space: "is_space (CHR 0x0A)"
  by (simp add: is_space_def)

lemma splitlines_from_ends:
  "\<forall>l \<in> set (butlast (splitlines_from cur s)). l \<noteq> [] \<and> is_space (last l)"
  by (induction cur s rule: splitlines_from.induct)
     (auto simp: is_linebreak_space lf_is_space split: if_splits)

lemma io_lines_from_ends:
  "\<forall>l \<in> set (butlast (io_lines_from cur s)). l \<noteq> [] \<and> is_space (last l)"
  by (induction cur s rule: io_lines_from.induct)
     (auto simp: lf_is_space split: if_splits)

lemma concat_io_lines_from: "concat (io_lines_from cur s) = cur @ s"
  by (induction cur s rule: io_lines_from.induct) auto

lemma ws_tokens_concat:
  "\<forall>l \<in> set (butlast ls). l \<noteq> [] \<and> is_space (last l)
   \<Longrightarrow> ws_tokens (concat ls) = concat (map ws_tokens ls)"
proof (induction ls)
  case Nil
  then show ?case by simp
next
  case (Cons l ls)
  show ?case
  proof (cases "ls = []")
    case True
    then show ?thesis by simp
  next
    case False
    with Cons.prems have "is_space (last l)" and "\<forall>l \<in> set (butlast ls). l \<noteq> [] \<and> is_space (last l)"
      by auto
    with Cons.IH show ?thesis by (simp add: ws_tokens_append_left)
  qed
qed

lemma butlast_drop_subset: "set (butlast (drop k ls)) \<subseteq> set (butlast ls)"
  by (metis drop_butlast set_drop_subset)

lemma ws_tokens_ne_blank: "ws_tokens l \<noteq> [[]]"
  using ws_tokens_nonempty [of "[]" l] by auto

lemma concat_read_rows: "concat (read_rows data) = ws_tokens data"
proof -
  have "concat (filter (\<lambda>r. r \<noteq> [[]]) (map (\<lambda>l. re_split_ws (strip l)) ls))
        = concat (map ws_tokens ls)" for ls
    by (induction ls) (auto simp: re_split_ws_strip ws_tokens_ne_blank)
  then have "concat (read_rows data) = concat (map ws_tokens (io_lines_from [] data))"
    by (simp add: read_rows_def)
  also have "\<dots> = ws_tokens (concat (io_lines_from [] data))"
    using io_lines_from_ends ws_tokens_concat by metis
  finally show ?thesis by (simp add: concat_io_lines_from)
qed

lemma locate_table_found:
  assumes "i < length (splitlines text)"
    and "sublist ''End Header:'' (splitlines text ! i)"
    and "\<forall>j<i. \<not> sublist ''End Header:'' (splitlines text ! j)"
  shows "locate_table text =
     (if i < 2 then Inl SkipHeaderTooShort
      else if length (splitlines text) \<le> Suc i then Inl SkipNoDataAfterHeader
      else Inr (re_split_ws (strip (splitlines text ! (i - 2))),
                concat (drop (Suc i) (splitlines text))))"
proof -
  have f: "find_end_header 0 (splitlines text) = int i"
    using find_end_header_first [OF assms, of 0] by simp
  have n: "nat (int i - 2) = i - 2" "nat (int i + 1) = Suc i" by auto
  show ?thesis
    unfolding locate_table_def Let_def f n by auto
qed

lemma locate_table_absent:
  assumes "\<forall>l \<in> set (splitlines text). \<not> sublist ''End Header:'' l"
  shows "locate_table text = Inl SkipNoEndHeader"
  using find_end_header_none [OF assms, of 0] by (simp add: locate_table_def)

section \<open>The early returns\<close>

lemma parse_ascii_content_skip:
  "locate_table text = Inl d \<Longrightarrow>
   parse_ascii_content rt text base dir fs = (Inr (), [d], fs)"
  by (simp add: parse_ascii_content_def parse_ascii_try_def)

lemma parsed_table_skip: "locate_table text = Inl d \<Longrightarrow> parsed_table text = None"
  by (simp add: parsed_table_def)

text \<open>
  Claim C2. When no line contains \<open>End Header:\<close>, or the first such line has index below 2,
  or no line follows it, no table is parsed: the call returns without raising, prints one
  skip diagnostic and leaves the file system as it was.
\<close>

theorem no_table_without_header:
  assumes "lines = splitlines text"
    and "(\<forall>l \<in> set lines. \<not> sublist ''End Header:'' l)
         \<or> (\<exists>i<length lines. sublist ''End Header:'' (lines ! i)
               \<and> (\<forall>j<i. \<not> sublist ''End Header:'' (lines ! j))
               \<and> (i < 2 \<or> length lines \<le> Suc i))"
  shows "parsed_table text = None
         \<and> (\<exists>d \<in> {SkipNoEndHeader, SkipHeaderTooShort, SkipNoDataAfterHeader}.
               parse_ascii_content rt text output_base_name output_dir fs = (Inr (), [d], fs))"
proof -
  have "\<exists>d \<in> {SkipNoEndHeader, SkipHeaderTooShort, SkipNoDataAfterHeader}.
          locate_table text = Inl d"
    using assms(2)
  proof
    assume "\<forall>l \<in> set lines. \<not> sublist ''End Header:'' l"
    then show ?thesis using locate_table_absent [of "text"] assms(1) by simp
  next
    assume "\<exists>i<length lines. sublist ''End Header:'' (lines ! i)
               \<and> (\<forall>j<i. \<not> sublist ''End Header:'' (lines ! j))
               \<and> (i < 2 \<or> length lines \<le> Suc i)"
    then obtain i where i: "i < length lines" "sublist ''End Header:'' (lines ! i)"
      "\<forall>j<i. \<not> sublist ''End Header:'' (lines ! j)" "i < 2 \<or> length lines \<le> Suc i"
      by blast
    show ?thesis
      using locate_table_found [of i "text"] i assms(1) by auto
  qed
  then obtain d where "d \<in> {SkipNoEndHeader, SkipHeaderTooShort, SkipNoDataAfterHeader}"
    and "locate_table text = Inl d" by blast
  then show ?thesis
    using parse_ascii_content_skip [of "text" d rt output_base_name output_dir fs]
      parsed_table_skip [of "text" d] by blast
qed

theorem no_table_without_header_witness:
  "sublist ''End Header:'' (splitlines (''End Header:'' @ [CHR 0x0A] @ ''1 2 3'') ! 0)
   \<and> parsed_table (''End Header:'' @ [CHR 0x0A] @ ''1 2 3'') = None
   \<and> parse_ascii_content sample_runtime (''End Header:'' @ [CHR 0x0A] @ ''1 2 3'') ''m'' ''out'' empty_fs
       = (Inr (), [SkipHeaderTooShort], empty_fs)"
proof -
  let ?S = "''End Header:'' @ [CHR 0x0A] @ ''1 2 3''"
  have sl: "splitlines ?S = [''End Header:'' @ [CHR 0x0A], ''1 2 3'']"
    by (simp add: splitlines_def is_linebreak_def)
  have h0: "sublist ''End Header:'' (splitlines ?S ! 0)"
    unfolding sl by (simp add: contains_iff_sublist [symmetric])
  then have h: "(\<forall>l \<in> set (splitlines ?S). \<not> sublist ''End Header:'' l)
     \<or> (\<exists>i<length (splitlines ?S). sublist ''End Header:'' (splitlines ?S ! i)
           \<and> (\<forall>j<i. \<not> sublist ''End Header:'' (splitlines ?S ! j))
           \<and> (i < 2 \<or> length (splitlines ?S) \<le> Suc i))"
    unfolding sl by (intro disjI2 exI [of _ 0]) simp
  have "find_end_header 0 (splitlines ?S) = 0"
    unfolding sl by simp
  then have "locate_table ?S = Inl SkipHeaderTooShort"
    by (simp add: locate_table_def)
  then have "parse_ascii_content sample_runtime ?S ''m'' ''out'' empty_fs
       = (Inr (), [SkipHeaderTooShort], empty_fs)"
    by (rule parse_ascii_content_skip)
  with no_table_without_header [OF refl h, of sample_runtime "''m''" "''out''" empty_fs] h0
  show ?thesis by blast
qed

subsection \<open>Extraction, row by row\<close>

lemma map_zip_map_zip:
  "length xs = length ys \<Longrightarrow>
   map g (zip (map f (zip xs ys)) ys) = map (\<lambda>(a, b). g (f (a, b), b)) (zip xs ys)"
  by (induction xs ys rule: list_induct2) auto

lemma map_fst_zip_case:
  "length xs = length ys \<Longrightarrow> map (\<lambda>(e, r). e) (zip xs ys) = xs"
  by (induction xs ys rule: list_induct2) auto

lemma extract_columns_append:
  "columns ex \<noteq> [] \<Longrightarrow> length (rows ex) = length (rows df) \<Longrightarrow>
   fst (extract_columns rt ts df ex m) =
     \<lparr>columns = columns ex @ map snd (filter (\<lambda>(o_name, n_name). o_name \<in> set (columns df)) ts),
      rows = map (\<lambda>(e, r). e @ numeric_cells rt df (filter (\<lambda>(o_name, n_name). o_name \<in> set (columns df)) ts) r)
                 (zip (rows ex) (rows df))\<rparr>"
proof (induction ts arbitrary: ex m)
  case Nil
  then show ?case
    by (cases ex) (simp add: numeric_cells_def map_fst_zip_case)
next
  case (Cons t ts)
  obtain o_name n_name where t: "t = (o_name, n_name)" by (cases t)
  show ?case
  proof (cases "o_name \<in> set (columns df)")
    case False
    with Cons t show ?thesis by simp
  next
    case True
    let ?ex = "set_column n_name (to_numeric rt (get_column df o_name)) ex"
    have ex': "?ex = \<lparr>columns = columns ex @ [n_name],
        rows = map (\<lambda>(e, r). e @ [cell_value rt (get_column df o_name) (r ! index_of o_name (columns df))]) (zip (rows ex) (rows df))\<rparr>"
      using Cons.prems
      by (simp add: set_column_def get_column_def to_numeric_def zip_map2 split_def)
    have len: "length (rows ?ex) = length (rows df)" using Cons.prems by (simp add: ex')
    have cne: "columns ?ex \<noteq> []" by (simp add: ex')
    from Cons.IH [OF cne len, of m] True t show ?thesis
      using Cons.prems(2)
      by (simp add: ex' map_zip_map_zip numeric_cells_def split_def)
  qed
qed

lemma map_zip_map_self:
  "map g (zip (map f xs) xs) = map (\<lambda>x. g (f x, x)) xs"
  by (induction xs) auto

lemma extract_columns_first:
  "fst (extract_columns rt ts df DataFrame m) =
     (if filter (\<lambda>(o_name, n_name). o_name \<in> set (columns df)) ts = [] then DataFrame
      else \<lparr>columns = map snd (filter (\<lambda>(o_name, n_name). o_name \<in> set (columns df)) ts),
            rows = map (numeric_cells rt df (filter (\<lambda>(o_name, n_name). o_name \<in> set (columns df)) ts))
                       (rows df)\<rparr>)"
proof (induction ts arbitrary: m)
  case Nil
  then show ?case by simp
next
  case (Cons t ts)
  obtain o_name n_name where t: "t = (o_name, n_name)" by (cases t)
  show ?case
  proof (cases "o_name \<in> set (columns df)")
    case False
    with Cons t show ?thesis by simp
  next
    case True
    let ?ex = "set_column n_name (to_numeric rt (get_column df o_name)) DataFrame"
    have ex': "?ex = \<lparr>columns = [n_name],
        rows = map (\<lambda>r. [cell_value rt (get_column df o_name) (r ! index_of o_name (columns df))]) (rows df)\<rparr>"
      by (simp add: set_column_def get_column_def to_numeric_def DataFrame_def)
    have len: "length (rows ?ex) = length (rows df)" by (simp add: ex')
    have cne: "columns ?ex \<noteq> []" by (simp add: ex')
    from extract_columns_append [OF cne len, of rt ts m] True t show ?thesis
      by (simp add: ex' map_zip_map_self numeric_cells_def)
  qed
qed

lemma extract_columns_missing:
  "snd (extract_columns rt ts df ex m) =
     m @ map fst (filter (\<lambda>(o_name, n_name). o_name \<notin> set (columns df)) ts)"
  by (induction ts arbitrary: ex m) auto

lemma extract_table_frame:
  "fst (extract_table rt df) =
     (if present_targets df = [] then DataFrame
      else \<lparr>columns = map snd (present_targets df),
            rows = filter (\<lambda>r. NaN \<notin> set r)
                     (map (numeric_cells rt df (present_targets df)) (rows df))\<rparr>)"
proof -
  have "fst (extract_table rt df) = dropna (fst (extract_columns rt TARGET_COLUMNS_MAP df DataFrame []))"
    by (simp add: extract_table_def split_def Let_def)
  also have "\<dots> = dropna (if present_targets df = [] then DataFrame
      else \<lparr>columns = map snd (present_targets df),
            rows = map (numeric_cells rt df (present_targets df)) (rows df)\<rparr>)"
    by (simp only: extract_columns_first present_targets_def)
  finally show ?thesis
    by (simp add: dropna_def DataFrame_def)
qed

lemma numeric_cells_present:
  "numeric_cells rt df (present_targets df) = converted_row rt df"
  by (rule ext) (simp add: converted_row_def)

lemma extract_table_rows:
  "rows (fst (extract_table rt df)) =
     (if present_targets df = [] then []
      else filter (\<lambda>row. NaN \<notin> set row)
             (map (\<lambda>src. converted_row rt df src) (rows df)))"
  by (simp add: extract_table_frame numeric_cells_present DataFrame_def)

lemma extract_table_columns:
  "columns (fst (extract_table rt df)) = map snd (present_targets df)"
  by (simp add: extract_table_frame DataFrame_def)

section \<open>The outcomes of parse_ascii_content\<close>

lemma last_path_join: "b \<noteq> [] \<Longrightarrow> last (path_join a b) = last b"
  by (simp add: path_join_def)

lemma output_paths_differ: "output_csv_path dir b \<noteq> output_txt_path dir b"
proof
  assume "output_csv_path dir b = output_txt_path dir b"
  then have "last (output_csv_path dir b) = last (output_txt_path dir b)" by simp
  then show False
    by (simp add: output_csv_path_def output_txt_path_def last_path_join)
qed

lemma read_csv_Inl:
  "read_csv names data = Inl e \<Longrightarrow>
   e = ValueError ''Duplicate names are not allowed.'' \<and> \<not> distinct names"
  by (auto simp: read_csv_def Let_def split: if_splits)

lemma except_clauses_bound: "except_clauses p True e = Inr (failure_diag p e)"
  by (cases e) (simp_all add: except_clauses_def failure_diag_def)

lemma failure_diag_not_success: "failure_diag p e \<noteq> Success n s"
  by (cases e) (simp_all add: failure_diag_def)

lemma save_outputs_cases:
  "save_outputs rt T b dir fs =
     (case deny fs (output_csv_path dir b) of
        Some e \<Rightarrow> (Inl e, [], fs)
      | None \<Rightarrow>
          (case deny fs (output_txt_path dir b) of
             Some e \<Rightarrow>
               (Inl e, [],
                fs\<lparr>files := (files fs)(output_csv_path dir b \<mapsto> to_csv rt (CHR '','') T)\<rparr>)
           | None \<Rightarrow>
               (Inr (), [Success (length (rows T)) (basename (output_csv_path dir b))],
                fs\<lparr>files := (files fs)(output_csv_path dir b \<mapsto> to_csv rt (CHR '','') T,
                                          output_txt_path dir b \<mapsto> to_csv rt (CHR 0x09) T)\<rparr>)))"
  by (simp add: save_outputs_def write_file_def split: option.splits)

lemma parsed_table_Some:
  "parsed_table text = Some df \<longleftrightarrow>
   (\<exists>names data. locate_table text = Inr (names, data) \<and> read_csv names data = Inr df)"
  by (auto simp: parsed_table_def split: sum.splits prod.splits)

lemma parse_ascii_content_table:
  assumes "parsed_table text = Some df"
  shows "parse_ascii_content rt text b dir fs =
     (if is_empty (fst (extract_table rt df))
      then (Inr (), snd (extract_table rt df) @ [SkipNoNumericData], fs)
      else
        (case deny fs (output_csv_path dir b) of
           Some e \<Rightarrow>
             (Inr (), snd (extract_table rt df) @ [failure_diag (output_csv_path dir b) e], fs)
         | None \<Rightarrow>
             (case deny fs (output_txt_path dir b) of
                Some e \<Rightarrow>
                  (Inr (), snd (extract_table rt df) @ [failure_diag (output_csv_path dir b) e],
                   fs\<lparr>files := (files fs)(output_csv_path dir b
                                    \<mapsto> to_csv rt (CHR '','') (fst (extract_table rt df)))\<rparr>)
              | None \<Rightarrow>
                  (Inr (),
                   snd (extract_table rt df)
                     @ [Success (length (rows (fst (extract_table rt df))))
                          (basename (output_csv_path dir b))],
                   fs\<lparr>files := (files fs)(output_csv_path dir b
                                      \<mapsto> to_csv rt (CHR '','') (fst (extract_table rt df)),
                                    output_txt_path dir b
                                      \<mapsto> to_csv rt (CHR 0x09) (fst (extract_table rt df)))\<rparr>))))"
proof -
  obtain names data where l: "locate_table text = Inr (names, data)"
    and r: "read_csv names data = Inr df"
    using assms parsed_table_Some by blast
  show ?thesis
    by (simp add: parse_ascii_content_def parse_ascii_try_def l r save_outputs_cases
        except_clauses_bound split_def Let_def split: option.splits)
qed

lemma parse_ascii_content_read_error:
  assumes "locate_table text = Inr (names, data)" and "read_csv names data = Inl e"
  shows "parse_ascii_content rt text b dir fs = (Inr (), [FailParse e], fs)"
proof -
  have "e = ValueError ''Duplicate names are not allowed.''"
    using assms(2) read_csv_Inl by blast
  then show ?thesis
    using assms by (simp add: parse_ascii_content_def parse_ascii_try_def except_clauses_def)
qed

lemma parse_ascii_content_never_raises:
  "fst (parse_ascii_content rt text b dir fs) = Inr ()"
proof (cases "locate_table text")
  case (Inl d)
  then show ?thesis by (simp add: parse_ascii_content_skip)
next
  case (Inr p)
  obtain names data where p: "p = (names, data)" by (cases p)
  show ?thesis
  proof (cases "read_csv names data")
    case (Inl e)
    with Inr p show ?thesis by (simp add: parse_ascii_content_read_error)
  next
    case r: (Inr df)
    with Inr p have "parsed_table text = Some df" by (simp add: parsed_table_def)
    then show ?thesis
      by (simp add: parse_ascii_content_table split: option.splits)
  qed
qed

lemma extract_table_warn_not_success: "Success n s \<notin> set (snd (extract_table rt df))"
  by (simp add: extract_table_def split_def Let_def)

lemma parse_ascii_content_success:
  assumes "parse_ascii_content rt text b dir fs = (r, msgs, fs')"
    and "Success n s \<in> set msgs"
  shows "\<exists>df. parsed_table text = Some df
           \<and> \<not> is_empty (fst (extract_table rt df))
           \<and> deny fs (output_csv_path dir b) = None
           \<and> deny fs (output_txt_path dir b) = None
           \<and> r = Inr ()
           \<and> msgs = snd (extract_table rt df)
                @ [Success (length (rows (fst (extract_table rt df)))) (basename (output_csv_path dir b))]
           \<and> fs' = fs\<lparr>files := (files fs)(output_csv_path dir b
                                      \<mapsto> to_csv rt (CHR '','') (fst (extract_table rt df)),
                                    output_txt_path dir b
                                      \<mapsto> to_csv rt (CHR 0x09) (fst (extract_table rt df)))\<rparr>"
proof (cases "locate_table text")
  case (Inl d)
  then have "d \<in> {SkipNoEndHeader, SkipHeaderTooShort, SkipNoDataAfterHeader}"
    by (auto simp: locate_table_def Let_def split: if_splits)
  with Inl assms show ?thesis by (auto simp: parse_ascii_content_skip)
next
  case (Inr p)
  obtain names data where p: "p = (names, data)" by (cases p)
  show ?thesis
  proof (cases "read_csv names data")
    case (Inl e)
    with Inr p assms show ?thesis by (auto simp: parse_ascii_content_read_error)
  next
    case rd: (Inr df)
    with Inr p have pt: "parsed_table text = Some df" by (simp add: parsed_table_def)
    show ?thesis
      using assms extract_table_warn_not_success [of n s rt df]
      by (auto simp: parse_ascii_content_table [OF pt] pt failure_diag_not_success
          failure_diag_not_success [THEN not_sym] split: if_splits option.splits)
  qed
qed

section \<open>The header line and the rows read\<close>

lemma io_lines_from_no_lf:
  "CHR 0x0A \<notin> set a \<Longrightarrow> io_lines_from cur (a @ s) = io_lines_from (cur @ a) s"
  by (induction a arbitrary: cur) auto

lemma io_lines_from_line:
  assumes "l \<noteq> []" and "CHR 0x0A \<notin> set (butlast l)" and "last l = CHR 0x0A"
  shows "io_lines_from [] (l @ s) = l # io_lines_from [] s"
proof -
  from assms(1,3) have l: "l = butlast l @ [CHR 0x0A]"
    by (metis append_butlast_last_id)
  have "io_lines_from [] (butlast l @ CHR 0x0A # s) = io_lines_from (butlast l) (CHR 0x0A # s)"
    using io_lines_from_no_lf [OF assms(2), of "[]" "CHR 0x0A # s"] by simp
  also have "\<dots> = (butlast l @ [CHR 0x0A]) # io_lines_from [] s" by simp
  finally show ?thesis using l by (metis append_Cons append_Nil append_assoc)
qed

lemma io_lines_from_last_line:
  assumes "l \<noteq> []" and "CHR 0x0A \<notin> set (butlast l)"
  shows "io_lines_from [] l = [l]"
proof (cases "last l = CHR 0x0A")
  case True
  from io_lines_from_line [OF assms True, of "[]"] show ?thesis by simp
next
  case False
  with assms have "CHR 0x0A \<notin> set l"
    by (metis append_butlast_last_id in_set_butlast_appendI insert_iff list.set(2) rotate1.simps(2) set_rotate1)
  from io_lines_from_no_lf [OF this, of "[]" "[]"] assms(1) show ?thesis by simp
qed

lemma io_lines_from_concat:
  assumes "\<forall>l \<in> set ls. l \<noteq> [] \<and> CHR 0x0A \<notin> set (butlast l)"
    and "\<forall>l \<in> set (butlast ls). last l = CHR 0x0A"
  shows "io_lines_from [] (concat ls) = ls"
  using assms
proof (induction ls)
  case Nil
  then show ?case by simp
next
  case (Cons l ls)
  show ?case
  proof (cases "ls = []")
    case True
    with Cons.prems show ?thesis by (simp add: io_lines_from_last_line)
  next
    case False
    with Cons.prems have l: "l \<noteq> []" "CHR 0x0A \<notin> set (butlast l)" "last l = CHR 0x0A"
      and r: "\<forall>l \<in> set ls. l \<noteq> [] \<and> CHR 0x0A \<notin> set (butlast l)"
             "\<forall>l \<in> set (butlast ls). last l = CHR 0x0A"
      by auto
    from io_lines_from_line [OF l, of "concat ls"] Cons.IH [OF r] show ?thesis by simp
  qed
qed

lemma lf_is_linebreak: "is_linebreak (CHR 0x0A)"
  by (simp add: is_linebreak_def)

lemma splitlines_from_lines:
  "CHR 0x0A \<notin> set cur \<Longrightarrow>
   \<forall>l \<in> set (splitlines_from cur s). l \<noteq> [] \<and> CHR 0x0A \<notin> set (butlast l)"
proof (induction cur s rule: splitlines_from.induct)
  case (1 cur)
  then show ?case by (auto dest: in_set_butlastD)
next
  case (2 cur c)
  then show ?case by simp
next
  case (3 cur c d cs)
  show ?case
  proof (cases "c = CHR 0x0D \<and> d = CHR 0x0A")
    case True
    with 3 show ?thesis by (auto simp: butlast_append)
  next
    case nc: False
    show ?thesis
    proof (cases "is_linebreak c")
      case True
      with nc 3 show ?thesis by auto
    next
      case False
      then have "c \<noteq> CHR 0x0A" using lf_is_linebreak by auto
      with nc False 3 show ?thesis by auto
    qed
  qed
qed

lemma read_rows_lines:
  "filter (\<lambda>r. r \<noteq> [[]]) (map (\<lambda>l. re_split_ws (strip l)) ls) = data_rows ls"
  by (induction ls) (auto simp: data_rows_def re_split_ws_strip ws_tokens_ne_blank)

lemma read_rows_concat:
  assumes "\<forall>l \<in> set ls. l \<noteq> [] \<and> CHR 0x0A \<notin> set (butlast l)"
    and "\<forall>l \<in> set (butlast ls). last l = CHR 0x0A"
  shows "read_rows (concat ls) = data_rows ls"
  by (simp add: read_rows_def io_lines_from_concat [OF assms] read_rows_lines)

lemma read_csv_regular:
  assumes "distinct names"
    and "\<forall>r \<in> set (read_rows data). length r = length names"
  shows "read_csv names data = Inr \<lparr>columns = names, rows = map (map Some) (read_rows data)\<rparr>"
proof -
  have k: "(case read_rows data of [] \<Rightarrow> 0 | r # _ \<Rightarrow> length r - length names) = 0"
    using assms(2) by (auto split: list.splits)
  have f: "filter (\<lambda>r. length r \<le> length names) (read_rows data) = read_rows data"
    using assms(2) by (simp add: filter_id_conv)
  have p: "map (\<lambda>r. pad_row (length names) r) (read_rows data) = map (map Some) (read_rows data)"
    using assms(2) by (simp add: pad_row_def)
  show ?thesis
    using assms(1) by (simp add: read_csv_def Let_def k f p)
qed


text \<open>
  Claim C1, as stated, fails: the lines after the marker are those of \<open>str.splitlines\<close>, but
  the reader ends a row at LF only. Two lines ended by a lone CR are read as one row of six
  tokens; with three column names, its first three tokens are taken as the index and the frame
  has the single row \<open>4 5 6\<close>.
\<close>

theorem cr_lines_read_as_one_row_counterexample:
  "splitlines (sample_text (''1 2 3'' @ [CHR 0x0D] @ ''4 5 6'' @ [CHR 0x0D]))
     = [sample_header @ [CHR 0x0D, CHR 0x0A], ''Units'' @ [CHR 0x0A],
        ''End Header:'' @ [CHR 0x0A], ''1 2 3'' @ [CHR 0x0D], ''4 5 6'' @ [CHR 0x0D]]
   \<and> locate_table (sample_text (''1 2 3'' @ [CHR 0x0D] @ ''4 5 6'' @ [CHR 0x0D]))
     = Inr ([''Freq(Hz)'', [CHR ''Z'', CHR 0x27] @ ''(a)'', [CHR ''Z'', CHR 0x27, CHR 0x27] @ ''(b)''],
            ''1 2 3'' @ [CHR 0x0D] @ ''4 5 6'' @ [CHR 0x0D])
   \<and> data_rows [''1 2 3'' @ [CHR 0x0D], ''4 5 6'' @ [CHR 0x0D]]
     = [[''1'', ''2'', ''3''], [''4'', ''5'', ''6'']]
   \<and> read_rows (''1 2 3'' @ [CHR 0x0D] @ ''4 5 6'' @ [CHR 0x0D])
     = [[''1'', ''2'', ''3'', ''4'', ''5'', ''6'']]
   \<and> parsed_table (sample_text (''1 2 3'' @ [CHR 0x0D] @ ''4 5 6'' @ [CHR 0x0D]))
     = Some \<lparr>columns = [''Freq(Hz)'', [CHR ''Z'', CHR 0x27] @ ''(a)'',
                         [CHR ''Z'', CHR 0x27, CHR 0x27] @ ''(b)''],
             rows = [[Some ''4'', Some ''5'', Some ''6'']]\<rparr>
   \<and> files (snd (snd (parse_ascii_content sample_runtime
         (sample_text (''1 2 3'' @ [CHR 0x0D] @ ''4 5 6'' @ [CHR 0x0D])) ''m'' ''out'' empty_fs)))
       ''out/m_extracted.csv''
     = Some (''frequency (Hz),Z_real (Ohm),Z_imag (Ohm)'' @ [CHR 0x0A] @ ''4e0,5e0,6e0'' @ [CHR 0x0A])"
proof -
  let ?S = "sample_text (''1 2 3'' @ [CHR 0x0D] @ ''4 5 6'' @ [CHR 0x0D])"
  let ?df = "\<lparr>columns = [''Freq(Hz)'', [CHR ''Z'', CHR 0x27] @ ''(a)'',
                           [CHR ''Z'', CHR 0x27, CHR 0x27] @ ''(b)''],
                rows = [[Some ''4'', Some ''5'', Some ''6'']]\<rparr>"
  have sl: "splitlines ?S
     = [sample_header @ [CHR 0x0D, CHR 0x0A], ''Units'' @ [CHR 0x0A],
        ''End Header:'' @ [CHR 0x0A], ''1 2 3'' @ [CHR 0x0D], ''4 5 6'' @ [CHR 0x0D]]"
    by code_simp
  have loc: "locate_table ?S
     = Inr ([''Freq(Hz)'', [CHR ''Z'', CHR 0x27] @ ''(a)'', [CHR ''Z'', CHR 0x27, CHR 0x27] @ ''(b)''],
            ''1 2 3'' @ [CHR 0x0D] @ ''4 5 6'' @ [CHR 0x0D])"
    by code_simp
  have dr: "data_rows [''1 2 3'' @ [CHR 0x0D], ''4 5 6'' @ [CHR 0x0D]]
     = [[''1'', ''2'', ''3''], [''4'', ''5'', ''6'']]"
    by code_simp
  have rr: "read_rows (''1 2 3'' @ [CHR 0x0D] @ ''4 5 6'' @ [CHR 0x0D])
     = [[''1'', ''2'', ''3'', ''4'', ''5'', ''6'']]"
    by code_simp
  have h1: "parsed_table ?S = Some ?df" by code_simp
  have ne: "\<not> is_empty (fst (extract_table sample_runtime ?df))" by code_simp
  have w: "snd (extract_table sample_runtime ?df) = []" by code_simp
  have p1: "output_csv_path ''out'' ''m'' = ''out/m_extracted.csv''" by code_simp
  have p2: "output_txt_path ''out'' ''m'' = ''out/m_extracted.txt''" by code_simp
  have c: "to_csv sample_runtime (CHR '','') (fst (extract_table sample_runtime ?df))
           = ''frequency (Hz),Z_real (Ohm),Z_imag (Ohm)'' @ [CHR 0x0A] @ ''4e0,5e0,6e0'' @ [CHR 0x0A]"
    by code_simp
  have "files (snd (snd (parse_ascii_content sample_runtime ?S ''m'' ''out'' empty_fs)))
       ''out/m_extracted.csv''
     = Some (''frequency (Hz),Z_real (Ohm),Z_imag (Ohm)'' @ [CHR 0x0A] @ ''4e0,5e0,6e0'' @ [CHR 0x0A])"
    unfolding parse_ascii_content_table [OF h1] p1 p2 c
    using ne by (simp add: empty_fs_def)
  with sl loc dr rr h1 show ?thesis by blast
qed

text \<open>
  Claim C1, amended. Let the first line that contains \<open>End Header:\<close> have index \<open>i\<close>, with
  \<open>i \<ge> 2\<close> and a line after it. Then the column names are the pieces of line \<open>i - 2\<close>, stripped
  and split at runs of whitespace (its whitespace-delimited tokens; a blank line gives one
  empty name), the text handed to the row reader is the lines from \<open>i + 1\<close> on, and the tokens
  the reader obtains are, in order, the whitespace-delimited tokens of those lines. When each
  of those lines but the last ends in LF, each of them that is not blank is read as one row;
  when moreover the names are distinct and each row has as many tokens as there are names,
  the parsed table has these names and these rows, and the extraction and the two outputs
  are those of this table.
\<close>

theorem header_located_and_lf_lines_read:
  assumes "lines = splitlines text"
    and "i < length lines"
    and "sublist ''End Header:'' (lines ! i)"
    and "\<forall>j<i. \<not> sublist ''End Header:'' (lines ! j)"
    and "2 \<le> i"
    and "Suc i < length lines"
    and "names = re_split_ws (strip (lines ! (i - 2)))"
    and "df = \<lparr>columns = names, rows = map (map Some) (data_rows (drop (Suc i) lines))\<rparr>"
  shows "locate_table text = Inr (names, concat (drop (Suc i) lines))
         \<and> (ws_tokens (lines ! (i - 2)) \<noteq> [] \<longrightarrow> names = ws_tokens (lines ! (i - 2)))
         \<and> concat (read_rows (concat (drop (Suc i) lines)))
              = concat (map ws_tokens (drop (Suc i) lines))
         \<and> ((\<forall>l \<in> set (butlast (drop (Suc i) lines)). last l = CHR 0x0A) \<longrightarrow>
              read_rows (concat (drop (Suc i) lines)) = data_rows (drop (Suc i) lines)
              \<and> (distinct names
                   \<and> (\<forall>r \<in> set (data_rows (drop (Suc i) lines)). length r = length names) \<longrightarrow>
                 parsed_table text = Some df
                 \<and> (deny fs (output_csv_path dir b) = None
                      \<and> deny fs (output_txt_path dir b) = None \<longrightarrow>
                    parse_ascii_content rt text b dir fs =
                      (if is_empty (fst (extract_table rt df))
                       then (Inr (), snd (extract_table rt df) @ [SkipNoNumericData], fs)
                       else (Inr (),
                             snd (extract_table rt df)
                               @ [Success (length (rows (fst (extract_table rt df))))
                                    (basename (output_csv_path dir b))],
                             fs\<lparr>files := (files fs)
                                  (output_csv_path dir b
                                     \<mapsto> to_csv rt (CHR '','') (fst (extract_table rt df)),
                                   output_txt_path dir b
                                     \<mapsto> to_csv rt (CHR 0x09) (fst (extract_table rt df)))\<rparr>)))))"
proof -
  let ?rs = "drop (Suc i) lines"
  have loc: "locate_table text = Inr (names, concat ?rs)"
    using locate_table_found [of i "text"] assms(1-7) by simp
  have tok: "ws_tokens (lines ! (i - 2)) \<noteq> [] \<longrightarrow> names = ws_tokens (lines ! (i - 2))"
    by (simp add: assms(7) re_split_ws_strip)
  have "\<forall>l \<in> set (butlast ?rs). l \<noteq> [] \<and> is_space (last l)"
    using splitlines_from_ends [of "[]" "text"] butlast_drop_subset [of "Suc i" lines] assms(1)
    by (auto simp: splitlines_def)
  then have "ws_tokens (concat ?rs) = concat (map ws_tokens ?rs)"
    by (rule ws_tokens_concat)
  then have toks: "concat (read_rows (concat ?rs)) = concat (map ws_tokens ?rs)"
    by (simp add: concat_read_rows)
  have shape: "\<forall>l \<in> set ?rs. l \<noteq> [] \<and> CHR 0x0A \<notin> set (butlast l)"
    using splitlines_from_lines [of "[]" "text"] assms(1) set_drop_subset [of "Suc i" lines]
    by (auto simp: splitlines_def)
  have lf: "(\<forall>l \<in> set (butlast ?rs). last l = CHR 0x0A) \<longrightarrow>
              read_rows (concat ?rs) = data_rows ?rs
              \<and> (distinct names \<and> (\<forall>r \<in> set (data_rows ?rs). length r = length names) \<longrightarrow>
                 parsed_table text = Some df
                 \<and> (deny fs (output_csv_path dir b) = None
                      \<and> deny fs (output_txt_path dir b) = None \<longrightarrow>
                    parse_ascii_content rt text b dir fs =
                      (if is_empty (fst (extract_table rt df))
                       then (Inr (), snd (extract_table rt df) @ [SkipNoNumericData], fs)
                       else (Inr (),
                             snd (extract_table rt df)
                               @ [Success (length (rows (fst (extract_table rt df))))
                                    (basename (output_csv_path dir b))],
                             fs\<lparr>files := (files fs)
                                  (output_csv_path dir b
                                     \<mapsto> to_csv rt (CHR '','') (fst (extract_table rt df)),
                                   output_txt_path dir b
                                     \<mapsto> to_csv rt (CHR 0x09) (fst (extract_table rt df)))\<rparr>))))"
  proof (intro impI conjI)
    assume e: "\<forall>l \<in> set (butlast ?rs). last l = CHR 0x0A"
    show rr: "read_rows (concat ?rs) = data_rows ?rs"
      using shape e by (rule read_rows_concat)
    assume "distinct names \<and> (\<forall>r \<in> set (data_rows ?rs). length r = length names)"
    then have d: "distinct names"
      and len: "\<forall>r \<in> set (read_rows (concat ?rs)). length r = length names"
      by (simp_all add: rr)
    from read_csv_regular [OF d len]
    have "read_csv names (concat ?rs) = Inr df" by (simp add: rr assms(8))
    with loc show pt: "parsed_table text = Some df" by (simp add: parsed_table_def)
    assume "deny fs (output_csv_path dir b) = None \<and> deny fs (output_txt_path dir b) = None"
    then show "parse_ascii_content rt text b dir fs =
                      (if is_empty (fst (extract_table rt df))
                       then (Inr (), snd (extract_table rt df) @ [SkipNoNumericData], fs)
                       else (Inr (),
                             snd (extract_table rt df)
                               @ [Success (length (rows (fst (extract_table rt df))))
                                    (basename (output_csv_path dir b))],
                             fs\<lparr>files := (files fs)
                                  (output_csv_path dir b
                                     \<mapsto> to_csv rt (CHR '','') (fst (extract_table rt df)),
                                   output_txt_path dir b
                                     \<mapsto> to_csv rt (CHR 0x09) (fst (extract_table rt df)))\<rparr>))"
      by (simp add: parse_ascii_content_table [OF pt])
  qed
  from loc tok toks lf show ?thesis by blast
qed

theorem header_located_and_lf_lines_read_witness:
  "splitlines (sample_text (''100  50.0  -20.0'' @ [CHR 0x0A] @ ''1 2 3'' @ [CHR 0x0D, CHR 0x0A]
                              @ [CHR 0x0A] @ ''4 5 6''))
     = [sample_header @ [CHR 0x0D, CHR 0x0A], ''Units'' @ [CHR 0x0A], ''End Header:'' @ [CHR 0x0A],
        ''100  50.0  -20.0'' @ [CHR 0x0A], ''1 2 3'' @ [CHR 0x0D, CHR 0x0A], [CHR 0x0A], ''4 5 6'']
   \<and> locate_table (sample_text (''100  50.0  -20.0'' @ [CHR 0x0A] @ ''1 2 3'' @ [CHR 0x0D, CHR 0x0A]
                              @ [CHR 0x0A] @ ''4 5 6''))
     = Inr ([''Freq(Hz)'', [CHR ''Z'', CHR 0x27] @ ''(a)'', [CHR ''Z'', CHR 0x27, CHR 0x27] @ ''(b)''],
            ''100  50.0  -20.0'' @ [CHR 0x0A] @ ''1 2 3'' @ [CHR 0x0D, CHR 0x0A]
              @ [CHR 0x0A] @ ''4 5 6'')
   \<and> read_rows (''100  50.0  -20.0'' @ [CHR 0x0A] @ ''1 2 3'' @ [CHR 0x0D, CHR 0x0A]
                  @ [CHR 0x0A] @ ''4 5 6'')
     = [[''100'', ''50.0'', ''-20.0''], [''1'', ''2'', ''3''], [''4'', ''5'', ''6'']]
   \<and> parsed_table (sample_text (''100  50.0  -20.0'' @ [CHR 0x0A] @ ''1 2 3'' @ [CHR 0x0D, CHR 0x0A]
                              @ [CHR 0x0A] @ ''4 5 6''))
     = Some \<lparr>columns = [''Freq(Hz)'', [CHR ''Z'', CHR 0x27] @ ''(a)'',
                         [CHR ''Z'', CHR 0x27, CHR 0x27] @ ''(b)''],
             rows = [[Some ''100'', Some ''50.0'', Some ''-20.0''],
                     [Some ''1'', Some ''2'', Some ''3''],
                     [Some ''4'', Some ''5'', Some ''6'']]\<rparr>
   \<and> parse_ascii_content sample_runtime
        (sample_text (''100  50.0  -20.0'' @ [CHR 0x0A] @ ''1 2 3'' @ [CHR 0x0D, CHR 0x0A]
                        @ [CHR 0x0A] @ ''4 5 6'')) ''m'' ''out'' empty_fs
     = (Inr (), [Success 3 ''m_extracted.csv''],
        \<lparr>files = [''out/m_extracted.csv''
                    \<mapsto> ''frequency (Hz),Z_real (Ohm),Z_imag (Ohm)'' @ [CHR 0x0A]
                         @ ''100e0,500e-1,-200e-1'' @ [CHR 0x0A]
                         @ ''1e0,2e0,3e0'' @ [CHR 0x0A] @ ''4e0,5e0,6e0'' @ [CHR 0x0A],
                  ''out/m_extracted.txt''
                    \<mapsto> ''frequency (Hz)'' @ [CHR 0x09] @ ''Z_real (Ohm)'' @ [CHR 0x09]
                         @ ''Z_imag (Ohm)'' @ [CHR 0x0A]
                         @ ''100e0'' @ [CHR 0x09] @ ''500e-1'' @ [CHR 0x09] @ ''-200e-1'' @ [CHR 0x0A]
                         @ ''1e0'' @ [CHR 0x09] @ ''2e0'' @ [CHR 0x09] @ ''3e0'' @ [CHR 0x0A]
                         @ ''4e0'' @ [CHR 0x09] @ ''5e0'' @ [CHR 0x09] @ ''6e0'' @ [CHR 0x0A]],
         deny = Map.empty\<rparr>)"
proof -
  let ?D = "''100  50.0  -20.0'' @ [CHR 0x0A] @ ''1 2 3'' @ [CHR 0x0D, CHR 0x0A]
              @ [CHR 0x0A] @ ''4 5 6''"
  let ?S = "sample_text ?D"
  let ?names = "[''Freq(Hz)'', [CHR ''Z'', CHR 0x27] @ ''(a)'', [CHR ''Z'', CHR 0x27, CHR 0x27] @ ''(b)'']"
  let ?df = "\<lparr>columns = ?names,
                rows = [[Some ''100'', Some ''50.0'', Some ''-20.0''],
                        [Some ''1'', Some ''2'', Some ''3''],
                        [Some ''4'', Some ''5'', Some ''6'']]\<rparr>"
  have sl: "splitlines ?S =
     [sample_header @ [CHR 0x0D, CHR 0x0A], ''Units'' @ [CHR 0x0A], ''End Header:'' @ [CHR 0x0A],
      ''100  50.0  -20.0'' @ [CHR 0x0A], ''1 2 3'' @ [CHR 0x0D, CHR 0x0A], [CHR 0x0A], ''4 5 6'']"
    by code_simp
  have h2: "2 < length (splitlines ?S)" unfolding sl by simp
  have h3: "sublist ''End Header:'' (splitlines ?S ! 2)"
    unfolding sl by (simp add: contains_iff_sublist [symmetric])
  have h4: "\<forall>j<2. \<not> sublist ''End Header:'' (splitlines ?S ! j)"
    unfolding sl
    by (auto simp: contains_iff_sublist [symmetric] sample_header_def dest!: less_2_cases)
  have h6: "Suc 2 < length (splitlines ?S)" unfolding sl by simp
  have names: "?names = re_split_ws (strip (splitlines ?S ! (2 - 2)))"
    unfolding sl by code_simp
  have dr: "data_rows (drop (Suc 2) (splitlines ?S))
     = [[''100'', ''50.0'', ''-20.0''], [''1'', ''2'', ''3''], [''4'', ''5'', ''6'']]"
    unfolding sl by code_simp
  have df: "?df = \<lparr>columns = ?names, rows = map (map Some) (data_rows (drop (Suc 2) (splitlines ?S)))\<rparr>"
    unfolding dr by simp
  have data: "concat (drop (Suc 2) (splitlines ?S)) = ?D"
    unfolding sl by simp
  have lfs: "\<forall>l \<in> set (butlast (drop (Suc 2) (splitlines ?S))). last l = CHR 0x0A"
    unfolding sl by simp
  have dist: "distinct ?names" by simp
  have lens: "\<forall>r \<in> set (data_rows (drop (Suc 2) (splitlines ?S))). length r = length ?names"
    unfolding dr by simp
  have p1: "output_csv_path ''out'' ''m'' = ''out/m_extracted.csv''" by code_simp
  have p2: "output_txt_path ''out'' ''m'' = ''out/m_extracted.txt''" by code_simp
  have dn: "deny empty_fs (output_csv_path ''out'' ''m'') = None
            \<and> deny empty_fs (output_txt_path ''out'' ''m'') = None"
    by (simp add: empty_fs_def)
  have ne: "\<not> is_empty (fst (extract_table sample_runtime ?df))" by code_simp
  have w: "snd (extract_table sample_runtime ?df) = []" by code_simp
  have n: "length (rows (fst (extract_table sample_runtime ?df))) = 3" by code_simp
  have b: "basename ''out/m_extracted.csv'' = ''m_extracted.csv''" by code_simp
  have c: "to_csv sample_runtime (CHR '','') (fst (extract_table sample_runtime ?df))
           = ''frequency (Hz),Z_real (Ohm),Z_imag (Ohm)'' @ [CHR 0x0A]
                         @ ''100e0,500e-1,-200e-1'' @ [CHR 0x0A]
                         @ ''1e0,2e0,3e0'' @ [CHR 0x0A] @ ''4e0,5e0,6e0'' @ [CHR 0x0A]"
    by code_simp
  have t: "to_csv sample_runtime (CHR 0x09) (fst (extract_table sample_runtime ?df))
           = ''frequency (Hz)'' @ [CHR 0x09] @ ''Z_real (Ohm)'' @ [CHR 0x09]
                         @ ''Z_imag (Ohm)'' @ [CHR 0x0A]
                         @ ''100e0'' @ [CHR 0x09] @ ''500e-1'' @ [CHR 0x09] @ ''-200e-1'' @ [CHR 0x0A]
                         @ ''1e0'' @ [CHR 0x09] @ ''2e0'' @ [CHR 0x09] @ ''3e0'' @ [CHR 0x0A]
                         @ ''4e0'' @ [CHR 0x09] @ ''5e0'' @ [CHR 0x09] @ ''6e0'' @ [CHR 0x0A]"
    by code_simp
  note inst = header_located_and_lf_lines_read [OF refl h2 h3 h4 order_refl h6 names df,
      where fs = empty_fs and dir = "''out''" and b = "''m''" and rt = sample_runtime]
  from inst have loc: "locate_table ?S = Inr (?names, ?D)"
    unfolding data by (rule conjunct1)
  from inst lfs have rr: "read_rows ?D = [[''100'', ''50.0'', ''-20.0''], [''1'', ''2'', ''3''], [''4'', ''5'', ''6'']]"
    unfolding data dr by blast
  from inst lfs dist lens have pt: "parsed_table ?S = Some ?df"
    by blast
  from inst lfs dist lens dn
  have "parse_ascii_content sample_runtime ?S ''m'' ''out'' empty_fs =
                      (if is_empty (fst (extract_table sample_runtime ?df))
                       then (Inr (), snd (extract_table sample_runtime ?df) @ [SkipNoNumericData], empty_fs)
                       else (Inr (),
                             snd (extract_table sample_runtime ?df)
                               @ [Success (length (rows (fst (extract_table sample_runtime ?df))))
                                    (basename (output_csv_path ''out'' ''m''))],
                             empty_fs\<lparr>files := (files empty_fs)
                                  (output_csv_path ''out'' ''m''
                                     \<mapsto> to_csv sample_runtime (CHR '','') (fst (extract_table sample_runtime ?df)),
                                   output_txt_path ''out'' ''m''
                                     \<mapsto> to_csv sample_runtime (CHR 0x09) (fst (extract_table sample_runtime ?df)))\<rparr>))"
    by blast
  then have out: "parse_ascii_content sample_runtime ?S ''m'' ''out'' empty_fs
     = (Inr (), [Success 3 ''m_extracted.csv''],
        \<lparr>files = [''out/m_extracted.csv''
                    \<mapsto> ''frequency (Hz),Z_real (Ohm),Z_imag (Ohm)'' @ [CHR 0x0A]
                         @ ''100e0,500e-1,-200e-1'' @ [CHR 0x0A]
                         @ ''1e0,2e0,3e0'' @ [CHR 0x0A] @ ''4e0,5e0,6e0'' @ [CHR 0x0A],
                  ''out/m_extracted.txt''
                    \<mapsto> ''frequency (Hz)'' @ [CHR 0x09] @ ''Z_real (Ohm)'' @ [CHR 0x09]
                         @ ''Z_imag (Ohm)'' @ [CHR 0x0A]
                         @ ''100e0'' @ [CHR 0x09] @ ''500e-1'' @ [CHR 0x09] @ ''-200e-1'' @ [CHR 0x0A]
                         @ ''1e0'' @ [CHR 0x09] @ ''2e0'' @ [CHR 0x09] @ ''3e0'' @ [CHR 0x0A]
                         @ ''4e0'' @ [CHR 0x09] @ ''5e0'' @ [CHR 0x09] @ ''6e0'' @ [CHR 0x0A]],
         deny = Map.empty\<rparr>)"
    unfolding p1 p2 c t w n b using ne by (simp add: empty_fs_def)
  from sl loc rr pt out show ?thesis by blast
qed

section \<open>Writing the two outputs\<close>

text \<open>
  Claim C10. The comma-delimited file is written first. When the tab-delimited file cannot
  be opened for writing, the comma-delimited one has been created or overwritten and stays,
  the tab-delimited path is left as it was, and the member is reported as failed: for a
  \<open>PermissionError\<close> the diagnostic is the permission one.
\<close>

theorem csv_stays_when_txt_fails:
  assumes "parsed_table text = Some df"
    and "\<not> is_empty (fst (extract_table rt df))"
    and "deny fs (output_csv_path dir b) = None"
    and "deny fs (output_txt_path dir b) = Some e"
    and "parse_ascii_content rt text b dir fs = (r, msgs, fs')"
  shows "r = Inr ()
         \<and> msgs = snd (extract_table rt df) @ [failure_diag (output_csv_path dir b) e]
         \<and> (e = PermissionError \<longrightarrow>
              msgs = snd (extract_table rt df)
                       @ [FailPermissionDenied (basename (output_csv_path dir b))])
         \<and> (\<forall>n s. Success n s \<notin> set msgs)
         \<and> files fs' (output_csv_path dir b)
              = Some (to_csv rt (CHR '','') (fst (extract_table rt df)))
         \<and> files fs' (output_txt_path dir b) = files fs (output_txt_path dir b)"
proof -
  have eq: "(r, msgs, fs') =
     (Inr (), snd (extract_table rt df) @ [failure_diag (output_csv_path dir b) e],
      fs\<lparr>files := (files fs)(output_csv_path dir b
                         \<mapsto> to_csv rt (CHR '','') (fst (extract_table rt df)))\<rparr>)"
    using assms by (simp add: parse_ascii_content_table)
  then have r: "r = Inr ()"
    and m: "msgs = snd (extract_table rt df) @ [failure_diag (output_csv_path dir b) e]"
    and f: "fs' = fs\<lparr>files := (files fs)(output_csv_path dir b
                         \<mapsto> to_csv rt (CHR '','') (fst (extract_table rt df)))\<rparr>"
    by simp_all
  have p: "e = PermissionError \<longrightarrow>
              msgs = snd (extract_table rt df)
                       @ [FailPermissionDenied (basename (output_csv_path dir b))]"
    by (simp add: m failure_diag_def)
  have s: "\<forall>n s. Success n s \<notin> set msgs"
    using extract_table_warn_not_success [of _ _ rt df]
    by (auto simp: m failure_diag_not_success [THEN not_sym])
  have c: "files fs' (output_csv_path dir b)
              = Some (to_csv rt (CHR '','') (fst (extract_table rt df)))"
    by (simp add: f)
  have t: "files fs' (output_txt_path dir b) = files fs (output_txt_path dir b)"
    using output_paths_differ [of dir b] by (simp add: f)
  from r m p s c t show ?thesis by blast
qed

theorem csv_stays_when_txt_fails_witness:
  "fst (parse_ascii_content sample_runtime (sample_text ''100  50.0  -20.0'') ''m'' ''out''
          txt_denied_fs) = Inr ()
   \<and> fst (snd (parse_ascii_content sample_runtime (sample_text ''100  50.0  -20.0'') ''m'' ''out''
          txt_denied_fs)) = [FailPermissionDenied ''m_extracted.csv'']
   \<and> files (snd (snd (parse_ascii_content sample_runtime (sample_text ''100  50.0  -20.0'')
          ''m'' ''out'' txt_denied_fs))) ''out/m_extracted.csv''
       = Some (''frequency (Hz),Z_real (Ohm),Z_imag (Ohm)'' @ [CHR 0x0A]
                @ ''100e0,500e-1,-200e-1'' @ [CHR 0x0A])
   \<and> files (snd (snd (parse_ascii_content sample_runtime (sample_text ''100  50.0  -20.0'')
          ''m'' ''out'' txt_denied_fs))) ''out/m_extracted.txt'' = None"
proof -
  let ?df = "\<lparr>columns = [''Freq(Hz)'', [CHR ''Z'', CHR 0x27] @ ''(a)'',
                           [CHR ''Z'', CHR 0x27, CHR 0x27] @ ''(b)''],
                rows = [[Some ''100'', Some ''50.0'', Some ''-20.0'']]\<rparr>"
  let ?p = "parse_ascii_content sample_runtime (sample_text ''100  50.0  -20.0'') ''m'' ''out''
              txt_denied_fs"
  have h1: "parsed_table (sample_text ''100  50.0  -20.0'') = Some ?df" by code_simp
  have h2: "\<not> is_empty (fst (extract_table sample_runtime ?df))" by code_simp
  have p1: "output_csv_path ''out'' ''m'' = ''out/m_extracted.csv''" by code_simp
  have p2: "output_txt_path ''out'' ''m'' = ''out/m_extracted.txt''" by code_simp
  have h3: "deny txt_denied_fs (output_csv_path ''out'' ''m'') = None"
    by (simp add: p1 txt_denied_fs_def)
  have h4: "deny txt_denied_fs (output_txt_path ''out'' ''m'') = Some PermissionError"
    by (simp add: p2 txt_denied_fs_def)
  have h5: "?p = (fst ?p, fst (snd ?p), snd (snd ?p))" by simp
  have w: "snd (extract_table sample_runtime ?df) = []" by code_simp
  have b: "basename ''out/m_extracted.csv'' = ''m_extracted.csv''" by code_simp
  have c: "to_csv sample_runtime (CHR '','') (fst (extract_table sample_runtime ?df))
           = ''frequency (Hz),Z_real (Ohm),Z_imag (Ohm)'' @ [CHR 0x0A]
                @ ''100e0,500e-1,-200e-1'' @ [CHR 0x0A]" by code_simp
  have f: "files txt_denied_fs ''out/m_extracted.txt'' = None"
    by (simp add: txt_denied_fs_def)
  from csv_stays_when_txt_fails [OF h1 h2 h3 h4 h5]
  show ?thesis
    unfolding p1 p2 w b c f by (simp add: failure_diag_def b)
qed

section \<open>The extracted values\<close>

lemma extracted_not_empty:
  "\<not> is_empty (fst (extract_table rt df)) \<Longrightarrow> present_targets df \<noteq> []"
  by (auto simp: is_empty_def extract_table_columns)

lemma extract_table_rows_complete:
  "\<forall>row \<in> set (rows (fst (extract_table rt df))). \<forall>v \<in> set row. v \<noteq> NaN"
  by (auto simp: extract_table_rows)

lemma length_converted_row: "length (converted_row rt df src) = length (present_targets df)"
  by (simp add: converted_row_def numeric_cells_def)

lemma converted_row_nth:
  "j < length (present_targets df) \<Longrightarrow>
   converted_row rt df src ! j
     = cell_value rt (get_column df (fst (present_targets df ! j)))
         (src ! index_of (fst (present_targets df ! j)) (columns df))"
  by (simp add: converted_row_def numeric_cells_def split_def)

lemma target_cells_nth:
  "j < length (present_targets df) \<Longrightarrow>
   target_cells df src ! j = src ! index_of (fst (present_targets df ! j)) (columns df)"
  by (simp add: target_cells_def split_def)

lemma converted_row_missing:
  assumes "None \<in> set (target_cells df src)"
  shows "NaN \<in> set (converted_row rt df src)"
proof -
  from assms obtain j where j: "j < length (present_targets df)"
    and n: "target_cells df src ! j = None"
    by (auto simp: in_set_conv_nth target_cells_def)
  from j n have "converted_row rt df src ! j = NaN"
    by (simp add: converted_row_nth target_cells_nth cell_value_def)
  with j show ?thesis
    by (metis length_converted_row nth_mem)
qed


text \<open>
  Claim C3, as stated, fails: a row with the token \<open>inf\<close> in a target column is written, with
  an infinite value; \<open>dropna\<close> drops missing values only.
\<close>

theorem infinity_written_counterexample:
  "parsed_table (sample_text ''1 2 inf'') =
     Some \<lparr>columns = [''Freq(Hz)'', [CHR ''Z'', CHR 0x27] @ ''(a)'',
                       [CHR ''Z'', CHR 0x27, CHR 0x27] @ ''(b)''],
           rows = [[Some ''1'', Some ''2'', Some ''inf'']]\<rparr>
   \<and> fst (extract_table sample_runtime
          \<lparr>columns = [''Freq(Hz)'', [CHR ''Z'', CHR 0x27] @ ''(a)'',
                       [CHR ''Z'', CHR 0x27, CHR 0x27] @ ''(b)''],
           rows = [[Some ''1'', Some ''2'', Some ''inf'']]\<rparr>) =
       \<lparr>columns = [''frequency (Hz)'', ''Z_real (Ohm)'', ''Z_imag (Ohm)''],
        rows = [[Fin False 1 0, Fin False 2 0, Infty False]]\<rparr>
   \<and> fst (snd (parse_ascii_content sample_runtime (sample_text ''1 2 inf'') ''m'' ''out'' empty_fs))
       = [Success 1 ''m_extracted.csv'']
   \<and> files (snd (snd (parse_ascii_content sample_runtime (sample_text ''1 2 inf'') ''m'' ''out''
          empty_fs))) ''out/m_extracted.csv''
       = Some (''frequency (Hz),Z_real (Ohm),Z_imag (Ohm)'' @ [CHR 0x0A] @ ''1e0,2e0,inf'' @ [CHR 0x0A])"
proof -
  let ?df = "\<lparr>columns = [''Freq(Hz)'', [CHR ''Z'', CHR 0x27] @ ''(a)'',
                           [CHR ''Z'', CHR 0x27, CHR 0x27] @ ''(b)''],
                rows = [[Some ''1'', Some ''2'', Some ''inf'']]\<rparr>"
  have h1: "parsed_table (sample_text ''1 2 inf'') = Some ?df" by code_simp
  have h2: "fst (extract_table sample_runtime ?df) =
       \<lparr>columns = [''frequency (Hz)'', ''Z_real (Ohm)'', ''Z_imag (Ohm)''],
        rows = [[Fin False 1 0, Fin False 2 0, Infty False]]\<rparr>" by code_simp
  have w: "snd (extract_table sample_runtime ?df) = []" by code_simp
  have p1: "output_csv_path ''out'' ''m'' = ''out/m_extracted.csv''" by code_simp
  have p2: "output_txt_path ''out'' ''m'' = ''out/m_extracted.txt''" by code_simp
  have b: "basename ''out/m_extracted.csv'' = ''m_extracted.csv''" by code_simp
  have c: "to_csv sample_runtime (CHR '','')
             \<lparr>columns = [''frequency (Hz)'', ''Z_real (Ohm)'', ''Z_imag (Ohm)''],
              rows = [[Fin False 1 0, Fin False 2 0, Infty False]]\<rparr>
           = ''frequency (Hz),Z_real (Ohm),Z_imag (Ohm)'' @ [CHR 0x0A] @ ''1e0,2e0,inf'' @ [CHR 0x0A]"
    by code_simp
  have "parse_ascii_content sample_runtime (sample_text ''1 2 inf'') ''m'' ''out'' empty_fs =
     (Inr (), [Success 1 ''m_extracted.csv''],
      empty_fs\<lparr>files := (files empty_fs)(''out/m_extracted.csv''
          \<mapsto> ''frequency (Hz),Z_real (Ohm),Z_imag (Ohm)'' @ [CHR 0x0A] @ ''1e0,2e0,inf'' @ [CHR 0x0A],
        ''out/m_extracted.txt'' \<mapsto> to_csv sample_runtime (CHR 0x09) (fst (extract_table sample_runtime ?df)))\<rparr>)"
    unfolding parse_ascii_content_table [OF h1] h2 w p1 p2 b c
    by (simp add: is_empty_def empty_fs_def)
  with h1 h2 show ?thesis by simp
qed

text \<open>
  Claim C3, amended. Every row written holds, in each present target column, a value that is
  not missing; it may be an infinity. The rows written are, in the order of the parsed table,
  the rows whose present target cells all have a value other than NaN after the conversion;
  a row in which a present target cell is not there has NaN there and is dropped.
\<close>

theorem written_rows_hold_no_missing_value:
  assumes "parse_ascii_content rt text b dir fs = (r, msgs, fs')"
    and "Success n s \<in> set msgs"
  shows "\<exists>df. parsed_table text = Some df
           \<and> files fs' (output_csv_path dir b)
                = Some (to_csv rt (CHR '','') (fst (extract_table rt df)))
           \<and> files fs' (output_txt_path dir b)
                = Some (to_csv rt (CHR 0x09) (fst (extract_table rt df)))
           \<and> rows (fst (extract_table rt df))
                = filter (\<lambda>row. NaN \<notin> set row)
                    (map (\<lambda>src. converted_row rt df src) (rows df))
           \<and> (\<forall>row \<in> set (rows (fst (extract_table rt df))). \<forall>v \<in> set row. v \<noteq> NaN)
           \<and> (\<forall>src \<in> set (rows df). None \<in> set (target_cells df src)
                 \<longrightarrow> NaN \<in> set (converted_row rt df src))"
proof -
  from parse_ascii_content_success [OF assms]
  obtain df where df: "parsed_table text = Some df"
    and ne: "\<not> is_empty (fst (extract_table rt df))"
    and fs': "fs' = fs\<lparr>files := (files fs)(output_csv_path dir b
                                      \<mapsto> to_csv rt (CHR '','') (fst (extract_table rt df)),
                                    output_txt_path dir b
                                      \<mapsto> to_csv rt (CHR 0x09) (fst (extract_table rt df)))\<rparr>"
    by blast
  have c: "files fs' (output_csv_path dir b)
                = Some (to_csv rt (CHR '','') (fst (extract_table rt df)))"
    using output_paths_differ [of dir b] by (simp add: fs')
  have t: "files fs' (output_txt_path dir b)
                = Some (to_csv rt (CHR 0x09) (fst (extract_table rt df)))"
    by (simp add: fs')
  have rws: "rows (fst (extract_table rt df))
                = filter (\<lambda>row. NaN \<notin> set row)
                    (map (\<lambda>src. converted_row rt df src) (rows df))"
    using extracted_not_empty [OF ne] by (simp add: extract_table_rows)
  have m: "\<forall>src \<in> set (rows df). None \<in> set (target_cells df src)
                 \<longrightarrow> NaN \<in> set (converted_row rt df src)"
    by (simp add: converted_row_missing)
  from df c t rws extract_table_rows_complete [of rt df] m show ?thesis by blast
qed

theorem written_rows_hold_no_missing_value_witness:
  "files (snd (snd (parse_ascii_content sample_runtime
       (sample_text (''100  50.0  -20.0'' @ [CHR 0x0A] @ ''1 x 3'' @ [CHR 0x0A] @ ''5 6''))
       ''m'' ''out'' empty_fs)))
     ''out/m_extracted.csv''
   = Some (''frequency (Hz),Z_real (Ohm),Z_imag (Ohm)'' @ [CHR 0x0A]
            @ ''100e0,500e-1,-200e-1'' @ [CHR 0x0A])
   \<and> parsed_table (sample_text (''100  50.0  -20.0'' @ [CHR 0x0A] @ ''1 x 3'' @ [CHR 0x0A] @ ''5 6''))
     = Some \<lparr>columns = [''Freq(Hz)'', [CHR ''Z'', CHR 0x27] @ ''(a)'',
                         [CHR ''Z'', CHR 0x27, CHR 0x27] @ ''(b)''],
             rows = [[Some ''100'', Some ''50.0'', Some ''-20.0''],
                     [Some ''1'', Some ''x'', Some ''3''],
                     [Some ''5'', Some ''6'', None]]\<rparr>"
proof -
  let ?S = "sample_text (''100  50.0  -20.0'' @ [CHR 0x0A] @ ''1 x 3'' @ [CHR 0x0A] @ ''5 6'')"
  let ?df = "\<lparr>columns = [''Freq(Hz)'', [CHR ''Z'', CHR 0x27] @ ''(a)'',
                           [CHR ''Z'', CHR 0x27, CHR 0x27] @ ''(b)''],
                rows = [[Some ''100'', Some ''50.0'', Some ''-20.0''],
                        [Some ''1'', Some ''x'', Some ''3''],
                        [Some ''5'', Some ''6'', None]]\<rparr>"
  let ?p = "parse_ascii_content sample_runtime ?S ''m'' ''out'' empty_fs"
  have h1: "parsed_table ?S = Some ?df" by code_simp
  have ne: "\<not> is_empty (fst (extract_table sample_runtime ?df))" by code_simp
  have p1: "output_csv_path ''out'' ''m'' = ''out/m_extracted.csv''" by code_simp
  have c: "to_csv sample_runtime (CHR '','') (fst (extract_table sample_runtime ?df))
           = ''frequency (Hz),Z_real (Ohm),Z_imag (Ohm)'' @ [CHR 0x0A]
                @ ''100e0,500e-1,-200e-1'' @ [CHR 0x0A]" by code_simp
  have s: "Success (length (rows (fst (extract_table sample_runtime ?df)))) (basename (output_csv_path ''out'' ''m''))
           \<in> set (fst (snd ?p))"
    unfolding parse_ascii_content_table [OF h1] using ne by (simp add: empty_fs_def)
  have e: "?p = (fst ?p, fst (snd ?p), snd (snd ?p))" by simp
  from written_rows_hold_no_missing_value [OF e s] h1
  have "files (snd (snd ?p)) (output_csv_path ''out'' ''m'')
          = Some (to_csv sample_runtime (CHR '','') (fst (extract_table sample_runtime ?df)))"
    by auto
  then have "files (snd (snd ?p)) ''out/m_extracted.csv''
   = Some (''frequency (Hz),Z_real (Ohm),Z_imag (Ohm)'' @ [CHR 0x0A]
            @ ''100e0,500e-1,-200e-1'' @ [CHR 0x0A])" unfolding p1 c .
  with h1 show ?thesis by blast
qed



section \<open>Reading the rows\<close>

text \<open>
  Claim C7, as stated, fails: with a name twice in the header line, \<open>read_csv\<close> refuses the
  names, no table results, and the member is reported as failed.
\<close>

theorem duplicate_names_counterexample:
  "locate_table (member_text ''Freq(Hz)  Freq(Hz)'' ''1 2'') = Inr ([''Freq(Hz)'', ''Freq(Hz)''], ''1 2'')
   \<and> parsed_table (member_text ''Freq(Hz)  Freq(Hz)'' ''1 2'') = None
   \<and> parse_ascii_content sample_runtime (member_text ''Freq(Hz)  Freq(Hz)'' ''1 2'') ''m'' ''out''
         empty_fs
       = (Inr (), [FailParse (ValueError ''Duplicate names are not allowed.'')], empty_fs)"
proof -
  have l: "locate_table (member_text ''Freq(Hz)  Freq(Hz)'' ''1 2'')
           = Inr ([''Freq(Hz)'', ''Freq(Hz)''], ''1 2'')" by code_simp
  have r: "read_csv [''Freq(Hz)'', ''Freq(Hz)''] ''1 2''
           = Inl (ValueError ''Duplicate names are not allowed.'')" by code_simp
  have p: "parsed_table (member_text ''Freq(Hz)  Freq(Hz)'' ''1 2'') = None" by code_simp
  from l p parse_ascii_content_read_error [OF l r] show ?thesis by blast
qed

text \<open>
  Claim C7, amended. When the tokenized header line holds a name twice, no Parsed Table
  results: the reader raises, the exception is caught, the member is reported as failed with
  the reader's message, and nothing is written.
\<close>

theorem duplicate_names_fail_the_member:
  assumes "locate_table text = Inr (names, data)"
    and "\<not> distinct names"
  shows "parsed_table text = None
         \<and> parse_ascii_content rt text b dir fs
             = (Inr (), [FailParse (ValueError ''Duplicate names are not allowed.'')], fs)"
proof -
  have r: "read_csv names data = Inl (ValueError ''Duplicate names are not allowed.'')"
    using assms(2) by (simp add: read_csv_def)
  then have "parsed_table text = None" using assms(1) by (simp add: parsed_table_def)
  with parse_ascii_content_read_error [OF assms(1) r] show ?thesis by blast
qed

theorem duplicate_names_fail_the_member_witness:
  "parsed_table (member_text ''A  B  A'' ''1 2 3'') = None
   \<and> parse_ascii_content sample_runtime (member_text ''A  B  A'' ''1 2 3'') ''m'' ''out'' empty_fs
       = (Inr (), [FailParse (ValueError ''Duplicate names are not allowed.'')], empty_fs)"
proof -
  have l: "locate_table (member_text ''A  B  A'' ''1 2 3'') = Inr ([''A'', ''B'', ''A''], ''1 2 3'')"
    by code_simp
  have d: "\<not> distinct [''A'', ''B'', ''A'']" by simp
  from duplicate_names_fail_the_member [OF l d] show ?thesis .
qed

lemma length_pad_row: "length (pad_row w r) = max w (length r)"
  by (simp add: pad_row_def)

text \<open>
  Claim C6, as stated, fails for a row with missing tokens: it is not skipped. With four
  column names and the one data row \<open>100  50.0  -20.0\<close>, the row is read with a missing
  fourth cell, and is extracted and written.
\<close>

theorem short_row_kept_counterexample:
  "read_rows ''100  50.0  -20.0'' = [[''100'', ''50.0'', ''-20.0'']]
   \<and> parsed_table (member_text (sample_header @ ''  Time(s)'') ''100  50.0  -20.0'') =
       Some \<lparr>columns = [''Freq(Hz)'', [CHR ''Z'', CHR 0x27] @ ''(a)'',
                         [CHR ''Z'', CHR 0x27, CHR 0x27] @ ''(b)'', ''Time(s)''],
             rows = [[Some ''100'', Some ''50.0'', Some ''-20.0'', None]]\<rparr>
   \<and> fst (snd (parse_ascii_content sample_runtime
         (member_text (sample_header @ ''  Time(s)'') ''100  50.0  -20.0'') ''m'' ''out'' empty_fs))
       = [Success 1 ''m_extracted.csv'']
   \<and> files (snd (snd (parse_ascii_content sample_runtime
         (member_text (sample_header @ ''  Time(s)'') ''100  50.0  -20.0'') ''m'' ''out'' empty_fs)))
         ''out/m_extracted.csv''
       = Some (''frequency (Hz),Z_real (Ohm),Z_imag (Ohm)'' @ [CHR 0x0A]
                @ ''100e0,500e-1,-200e-1'' @ [CHR 0x0A])"
proof -
  let ?S = "member_text (sample_header @ ''  Time(s)'') ''100  50.0  -20.0''"
  let ?df = "\<lparr>columns = [''Freq(Hz)'', [CHR ''Z'', CHR 0x27] @ ''(a)'',
                         [CHR ''Z'', CHR 0x27, CHR 0x27] @ ''(b)'', ''Time(s)''],
             rows = [[Some ''100'', Some ''50.0'', Some ''-20.0'', None]]\<rparr>"
  have rr: "read_rows ''100  50.0  -20.0'' = [[''100'', ''50.0'', ''-20.0'']]" by code_simp
  have h1: "parsed_table ?S = Some ?df" by code_simp
  have h2: "fst (extract_table sample_runtime ?df) =
       \<lparr>columns = [''frequency (Hz)'', ''Z_real (Ohm)'', ''Z_imag (Ohm)''],
        rows = [[Fin False 100 0, Fin False 500 (- 1), Fin True 200 (- 1)]]\<rparr>" by code_simp
  have w: "snd (extract_table sample_runtime ?df) = []" by code_simp
  have p1: "output_csv_path ''out'' ''m'' = ''out/m_extracted.csv''" by code_simp
  have p2: "output_txt_path ''out'' ''m'' = ''out/m_extracted.txt''" by code_simp
  have b: "basename ''out/m_extracted.csv'' = ''m_extracted.csv''" by code_simp
  have c: "to_csv sample_runtime (CHR '','')
             \<lparr>columns = [''frequency (Hz)'', ''Z_real (Ohm)'', ''Z_imag (Ohm)''],
              rows = [[Fin False 100 0, Fin False 500 (- 1), Fin True 200 (- 1)]]\<rparr>
           = ''frequency (Hz),Z_real (Ohm),Z_imag (Ohm)'' @ [CHR 0x0A]
               @ ''100e0,500e-1,-200e-1'' @ [CHR 0x0A]"
    by code_simp
  have "parse_ascii_content sample_runtime ?S ''m'' ''out'' empty_fs =
     (Inr (), [Success 1 ''m_extracted.csv''],
      empty_fs\<lparr>files := (files empty_fs)(''out/m_extracted.csv''
          \<mapsto> ''frequency (Hz),Z_real (Ohm),Z_imag (Ohm)'' @ [CHR 0x0A]
               @ ''100e0,500e-1,-200e-1'' @ [CHR 0x0A],
        ''out/m_extracted.txt'' \<mapsto> to_csv sample_runtime (CHR 0x09) (fst (extract_table sample_runtime ?df)))\<rparr>)"
    unfolding parse_ascii_content_table [OF h1] h2 w p1 p2 b c
    by (simp add: is_empty_def empty_fs_def)
  with rr h1 show ?thesis by simp
qed

text \<open>
  Claim C6, amended. No token count aborts the parse. A row with more tokens than the reader
  expects is skipped; a row with fewer is kept, with missing values in its last cells (the
  extraction drops it only if a present target cell is missing). The reader expects as many
  tokens as there are column names, and as many as the first row has when that row has
  more: its extra leading tokens are then read as the index, in every row. When no row is
  left, the member is skipped.
\<close>

theorem long_rows_skipped_short_rows_padded:
  assumes "locate_table text = Inr (names, data)"
    and "distinct names"
  shows "\<exists>df. parsed_table text = Some df
           \<and> columns df = names
           \<and> (\<forall>r \<in> set (rows df). length r = length names)
           \<and> rows df =
               (let k = (case read_rows data of [] \<Rightarrow> 0 | r # _ \<Rightarrow> length r - length names)
                in map (\<lambda>r. drop k (pad_row (length names + k) r))
                     (filter (\<lambda>r. length r \<le> length names + k) (read_rows data)))
           \<and> ((case read_rows data of [] \<Rightarrow> True | r # _ \<Rightarrow> length r \<le> length names) \<longrightarrow>
                rows df = map (pad_row (length names))
                            (filter (\<lambda>r. length r \<le> length names) (read_rows data)))
           \<and> fst (parse_ascii_content rt text b dir fs) = Inr ()
           \<and> (rows df = [] \<longrightarrow>
                parse_ascii_content rt text b dir fs
                  = (Inr (), snd (extract_table rt df) @ [SkipNoNumericData], fs))"
proof -
  define k where "k = (case read_rows data of [] \<Rightarrow> 0 | r # _ \<Rightarrow> length r - length names)"
  define df where "df = \<lparr>columns = names,
      rows = map (\<lambda>r. drop k (pad_row (length names + k) r))
               (filter (\<lambda>r. length r \<le> length names + k) (read_rows data))\<rparr>"
  have rd: "read_csv names data = Inr df"
    using assms(2) by (simp add: read_csv_def df_def k_def Let_def)
  with assms(1) have pt: "parsed_table text = Some df" by (simp add: parsed_table_def)
  have cols: "columns df = names" by (simp add: df_def)
  have len: "\<forall>r \<in> set (rows df). length r = length names"
    by (auto simp: df_def length_pad_row)
  have rws: "rows df =
               (let k = (case read_rows data of [] \<Rightarrow> 0 | r # _ \<Rightarrow> length r - length names)
                in map (\<lambda>r. drop k (pad_row (length names + k) r))
                     (filter (\<lambda>r. length r \<le> length names + k) (read_rows data)))"
    by (simp add: df_def k_def Let_def)
  have k0: "(case read_rows data of [] \<Rightarrow> True | r # _ \<Rightarrow> length r \<le> length names) \<longrightarrow>
                rows df = map (pad_row (length names))
                            (filter (\<lambda>r. length r \<le> length names) (read_rows data))"
  proof
    assume "case read_rows data of [] \<Rightarrow> True | r # _ \<Rightarrow> length r \<le> length names"
    then have "k = 0" by (auto simp: k_def split: list.splits)
    then show "rows df = map (pad_row (length names))
                            (filter (\<lambda>r. length r \<le> length names) (read_rows data))"
      by (simp add: df_def)
  qed
  have nr: "fst (parse_ascii_content rt text b dir fs) = Inr ()"
    by (rule parse_ascii_content_never_raises)
  have skip: "rows df = [] \<longrightarrow>
                parse_ascii_content rt text b dir fs
                  = (Inr (), snd (extract_table rt df) @ [SkipNoNumericData], fs)"
  proof
    assume "rows df = []"
    then have "is_empty (fst (extract_table rt df))"
      by (simp add: is_empty_def extract_table_rows)
    then show "parse_ascii_content rt text b dir fs
                  = (Inr (), snd (extract_table rt df) @ [SkipNoNumericData], fs)"
      by (simp add: parse_ascii_content_table [OF pt])
  qed
  from pt cols len rws k0 nr skip show ?thesis by blast
qed

theorem long_rows_skipped_short_rows_padded_witness:
  "\<exists>df. parsed_table (member_text ''A  B  C'' (''1 2 3'' @ [CHR 0x0A] @ ''4 5 6 7'' @ [CHR 0x0A] @ ''8 9''))
          = Some df
        \<and> columns df = [''A'', ''B'', ''C'']
        \<and> rows df = [[Some ''1'', Some ''2'', Some ''3''], [Some ''8'', Some ''9'', None]]"
proof -
  let ?D = "''1 2 3'' @ [CHR 0x0A] @ ''4 5 6 7'' @ [CHR 0x0A] @ ''8 9''"
  have l: "locate_table (member_text ''A  B  C'' ?D) = Inr ([''A'', ''B'', ''C''], ?D)"
    by code_simp
  have d: "distinct [''A'', ''B'', ''C'']" by simp
  have e: "(let k = (case read_rows ?D of [] \<Rightarrow> 0 | r # _ \<Rightarrow> length r - length [''A'', ''B'', ''C''])
            in map (\<lambda>r. drop k (pad_row (length [''A'', ''B'', ''C''] + k) r))
                 (filter (\<lambda>r. length r \<le> length [''A'', ''B'', ''C''] + k) (read_rows ?D)))
           = [[Some ''1'', Some ''2'', Some ''3''], [Some ''8'', Some ''9'', None]]"
    by code_simp
  from long_rows_skipped_short_rows_padded [OF l d, of sample_runtime "''m''" "''out''" empty_fs]
  obtain df where "parsed_table (member_text ''A  B  C'' ?D) = Some df"
    and "columns df = [''A'', ''B'', ''C'']"
    and "rows df =
          (let k = (case read_rows ?D of [] \<Rightarrow> 0 | r # _ \<Rightarrow> length r - length [''A'', ''B'', ''C''])
            in map (\<lambda>r. drop k (pad_row (length [''A'', ''B'', ''C''] + k) r))
                 (filter (\<lambda>r. length r \<le> length [''A'', ''B'', ''C''] + k) (read_rows ?D)))"
    by blast
  then show ?thesis unfolding e by blast
qed

section \<open>The two output files\<close>

lemma map_subst_id: "a \<notin> set f \<Longrightarrow> map (\<lambda>c. if c = a then b else c) f = f"
  by (induction f) auto

lemma join_subst:
  "\<forall>f \<in> set parts. a \<notin> set f \<Longrightarrow>
   map (\<lambda>c. if c = a then b else c) (join [a] parts) = join [b] parts"
  by (induction "[a]" parts rule: join.induct) (auto simp: map_subst_id)

lemma map_concat_cong:
  "(\<And>x. x \<in> set L \<Longrightarrow> map h (g x) = g' x) \<Longrightarrow>
   map h (concat (map g L)) = concat (map g' L)"
  by (induction L) auto

lemma to_csv_subst:
  assumes "\<forall>name \<in> set (columns T). a \<notin> set name"
    and "\<forall>row \<in> set (rows T). \<forall>v \<in> set row. a \<notin> set (fmt_value rt v)"
    and "a \<noteq> CHR 0x0A"
  shows "map (\<lambda>c. if c = a then b else c) (to_csv rt a T) = to_csv rt b T"
proof -
  let ?L = "columns T # map (map (fmt_value rt)) (rows T)"
  have step: "map (\<lambda>c. if c = a then b else c) (join [a] x @ [CHR 0x0A]) = join [b] x @ [CHR 0x0A]"
    if "x \<in> set ?L" for x
  proof -
    from that assms(1,2) have "\<forall>f \<in> set x. a \<notin> set f" by auto
    then show ?thesis using assms(3) by (simp add: join_subst)
  qed
  show ?thesis
    unfolding to_csv_def by (rule map_concat_cong) (rule step)
qed

lemma target_names_plain:
  "\<forall>name \<in> set (map snd TARGET_COLUMNS_MAP). CHR '','' \<notin> set name \<and> CHR 0x09 \<notin> set name"
  by (simp add: TARGET_COLUMNS_MAP_def)

lemma extracted_names_plain:
  "\<forall>name \<in> set (columns (fst (extract_table rt df))). CHR '','' \<notin> set name \<and> CHR 0x09 \<notin> set name"
  using target_names_plain by (auto simp: extract_table_columns present_targets_def)

lemma show_nat_digits: "\<forall>c \<in> set (show_nat n). is_digit c"
proof (induction n rule: show_nat.induct)
  case (1 n)
  show ?case
  proof (cases "n < 10")
    case True
    then show ?thesis
      by (subst show_nat.simps) (simp add: is_digit_def)
  next
    case False
    have "n mod 10 < 10" by simp
    then have "is_digit (char_of (48 + n mod 10))"
      by (simp add: is_digit_def)
    with False "1.IH" show ?thesis
      by (subst show_nat.simps) simp
  qed
qed

lemma sci_text_plain: "CHR '','' \<notin> set (sci_text v) \<and> CHR 0x09 \<notin> set (sci_text v)"
proof -
  have d: "\<not> is_digit (CHR '','')" "\<not> is_digit (CHR 0x09)" by (simp_all add: is_digit_def)
  then have "CHR '','' \<notin> set (show_nat k) \<and> CHR 0x09 \<notin> set (show_nat k)" for k
    using show_nat_digits [of k] by blast
  then show ?thesis
    by (cases v) (simp_all add: sci_text_def)
qed

text \<open>
  Claim C8. When the member is written, the two files hold the same table, the header of
  renamed column names first and then the rows of the Extracted Table in its order: the
  tab-delimited text is the comma-delimited text with every comma replaced by a tab, and
  conversely. The text printed for a value is a parameter of the model; it is taken to
  hold neither a comma nor a tab, as the text of a number does not.
\<close>

theorem outputs_differ_in_delimiter_only:
  assumes "parse_ascii_content rt text b dir fs = (r, msgs, fs')"
    and "Success n s \<in> set msgs"
    and "\<forall>v. CHR '','' \<notin> set (fmt_value rt v) \<and> CHR 0x09 \<notin> set (fmt_value rt v)"
  shows "\<exists>df csv txt. parsed_table text = Some df
           \<and> files fs' (output_csv_path dir b) = Some csv
           \<and> files fs' (output_txt_path dir b) = Some txt
           \<and> csv = concat (map (\<lambda>parts. join '','' parts @ [CHR 0x0A])
                      (map snd (present_targets df)
                       # map (map (fmt_value rt)) (rows (fst (extract_table rt df)))))
           \<and> txt = concat (map (\<lambda>parts. join [CHR 0x09] parts @ [CHR 0x0A])
                      (map snd (present_targets df)
                       # map (map (fmt_value rt)) (rows (fst (extract_table rt df)))))
           \<and> txt = map (\<lambda>c. if c = CHR '','' then CHR 0x09 else c) csv
           \<and> csv = map (\<lambda>c. if c = CHR 0x09 then CHR '','' else c) txt
           \<and> rows (fst (extract_table rt df))
                = filter (\<lambda>row. NaN \<notin> set row)
                    (map (\<lambda>src. converted_row rt df src) (rows df))"
proof -
  from parse_ascii_content_success [OF assms(1,2)]
  obtain df where df: "parsed_table text = Some df"
    and ne: "\<not> is_empty (fst (extract_table rt df))"
    and fs': "fs' = fs\<lparr>files := (files fs)(output_csv_path dir b
                                      \<mapsto> to_csv rt (CHR '','') (fst (extract_table rt df)),
                                    output_txt_path dir b
                                      \<mapsto> to_csv rt (CHR 0x09) (fst (extract_table rt df)))\<rparr>"
    by blast
  let ?T = "fst (extract_table rt df)"
  have c: "files fs' (output_csv_path dir b) = Some (to_csv rt (CHR '','') ?T)"
    using output_paths_differ [of dir b] by (simp add: fs')
  have t: "files fs' (output_txt_path dir b) = Some (to_csv rt (CHR 0x09) ?T)"
    by (simp add: fs')
  have c_eq: "to_csv rt (CHR '','') ?T = concat (map (\<lambda>parts. join '','' parts @ [CHR 0x0A])
                      (map snd (present_targets df) # map (map (fmt_value rt)) (rows ?T)))"
    by (simp add: to_csv_def extract_table_columns)
  have t_eq: "to_csv rt (CHR 0x09) ?T = concat (map (\<lambda>parts. join [CHR 0x09] parts @ [CHR 0x0A])
                      (map snd (present_targets df) # map (map (fmt_value rt)) (rows ?T)))"
    by (simp add: to_csv_def extract_table_columns)
  have plain: "\<forall>row \<in> set (rows ?T). \<forall>v \<in> set row.
      CHR '','' \<notin> set (fmt_value rt v) \<and> CHR 0x09 \<notin> set (fmt_value rt v)"
    using assms(3) by blast
  have ct: "map (\<lambda>c. if c = CHR '','' then CHR 0x09 else c) (to_csv rt (CHR '','') ?T)
            = to_csv rt (CHR 0x09) ?T"
  proof (rule to_csv_subst)
    show "\<forall>name \<in> set (columns ?T). CHR '','' \<notin> set name"
      using extracted_names_plain [of rt df] by blast
    show "\<forall>row \<in> set (rows ?T). \<forall>v \<in> set row. CHR '','' \<notin> set (fmt_value rt v)"
      using plain by blast
    show "CHR '','' \<noteq> CHR 0x0A" by simp
  qed
  have tc: "map (\<lambda>c. if c = CHR 0x09 then CHR '','' else c) (to_csv rt (CHR 0x09) ?T)
            = to_csv rt (CHR '','') ?T"
  proof (rule to_csv_subst)
    show "\<forall>name \<in> set (columns ?T). CHR 0x09 \<notin> set name"
      using extracted_names_plain [of rt df] by blast
    show "\<forall>row \<in> set (rows ?T). \<forall>v \<in> set row. CHR 0x09 \<notin> set (fmt_value rt v)"
      using plain by blast
    show "CHR 0x09 \<noteq> CHR 0x0A" by simp
  qed
  have rws: "rows ?T = filter (\<lambda>row. NaN \<notin> set row)
                    (map (\<lambda>src. converted_row rt df src) (rows df))"
    using extracted_not_empty [OF ne] by (simp add: extract_table_rows)
  have "parsed_table text = Some df
           \<and> files fs' (output_csv_path dir b) = Some (to_csv rt (CHR '','') ?T)
           \<and> files fs' (output_txt_path dir b) = Some (to_csv rt (CHR 0x09) ?T)
           \<and> to_csv rt (CHR '','') ?T = concat (map (\<lambda>parts. join '','' parts @ [CHR 0x0A])
                      (map snd (present_targets df)
                       # map (map (fmt_value rt)) (rows (fst (extract_table rt df)))))
           \<and> to_csv rt (CHR 0x09) ?T = concat (map (\<lambda>parts. join [CHR 0x09] parts @ [CHR 0x0A])
                      (map snd (present_targets df)
                       # map (map (fmt_value rt)) (rows (fst (extract_table rt df)))))
           \<and> to_csv rt (CHR 0x09) ?T
                = map (\<lambda>c. if c = CHR '','' then CHR 0x09 else c) (to_csv rt (CHR '','') ?T)
           \<and> to_csv rt (CHR '','') ?T
                = map (\<lambda>c. if c = CHR 0x09 then CHR '','' else c) (to_csv rt (CHR 0x09) ?T)
           \<and> rows (fst (extract_table rt df))
                = filter (\<lambda>row. NaN \<notin> set row)
                    (map (\<lambda>src. converted_row rt df src) (rows df))"
    by (intro conjI; (rule df c t c_eq t_eq ct [symmetric] tc [symmetric] rws))
  then show ?thesis by - (rule exI, rule exI, rule exI, assumption)
qed

theorem outputs_differ_in_delimiter_only_witness:
  "files (snd (snd (parse_ascii_content sample_runtime
       (sample_text (''100  50.0  -20.0'' @ [CHR 0x0A] @ ''1 2 3'')) ''m'' ''out'' empty_fs)))
     ''out/m_extracted.csv''
   = Some (''frequency (Hz),Z_real (Ohm),Z_imag (Ohm)'' @ [CHR 0x0A]
            @ ''100e0,500e-1,-200e-1'' @ [CHR 0x0A] @ ''1e0,2e0,3e0'' @ [CHR 0x0A])
   \<and> files (snd (snd (parse_ascii_content sample_runtime
       (sample_text (''100  50.0  -20.0'' @ [CHR 0x0A] @ ''1 2 3'')) ''m'' ''out'' empty_fs)))
     ''out/m_extracted.txt''
   = Some (map (\<lambda>c. if c = CHR '','' then CHR 0x09 else c)
            (''frequency (Hz),Z_real (Ohm),Z_imag (Ohm)'' @ [CHR 0x0A]
              @ ''100e0,500e-1,-200e-1'' @ [CHR 0x0A] @ ''1e0,2e0,3e0'' @ [CHR 0x0A]))"
proof -
  let ?S = "sample_text (''100  50.0  -20.0'' @ [CHR 0x0A] @ ''1 2 3'')"
  let ?df = "\<lparr>columns = [''Freq(Hz)'', [CHR ''Z'', CHR 0x27] @ ''(a)'',
                           [CHR ''Z'', CHR 0x27, CHR 0x27] @ ''(b)''],
                rows = [[Some ''100'', Some ''50.0'', Some ''-20.0''],
                        [Some ''1'', Some ''2'', Some ''3'']]\<rparr>"
  let ?p = "parse_ascii_content sample_runtime ?S ''m'' ''out'' empty_fs"
  have h1: "parsed_table ?S = Some ?df" by code_simp
  have ne: "\<not> is_empty (fst (extract_table sample_runtime ?df))" by code_simp
  have p1: "output_csv_path ''out'' ''m'' = ''out/m_extracted.csv''" by code_simp
  have p2: "output_txt_path ''out'' ''m'' = ''out/m_extracted.txt''" by code_simp
  have c: "concat (map (\<lambda>parts. join '','' parts @ [CHR 0x0A])
             (map snd (present_targets ?df)
              # map (map (fmt_value sample_runtime)) (rows (fst (extract_table sample_runtime ?df)))))
           = ''frequency (Hz),Z_real (Ohm),Z_imag (Ohm)'' @ [CHR 0x0A]
                @ ''100e0,500e-1,-200e-1'' @ [CHR 0x0A] @ ''1e0,2e0,3e0'' @ [CHR 0x0A]" by code_simp
  have s: "Success (length (rows (fst (extract_table sample_runtime ?df)))) (basename (output_csv_path ''out'' ''m''))
           \<in> set (fst (snd ?p))"
    unfolding parse_ascii_content_table [OF h1] using ne by (simp add: empty_fs_def)
  have e: "?p = (fst ?p, fst (snd ?p), snd (snd ?p))" by simp
  have f: "\<forall>v. CHR '','' \<notin> set (fmt_value sample_runtime v)
             \<and> CHR 0x09 \<notin> set (fmt_value sample_runtime v)"
    by (simp add: sample_runtime_def sci_text_plain)
  from outputs_differ_in_delimiter_only [OF e s f] h1
  obtain csv tsv where "files (snd (snd ?p)) (output_csv_path ''out'' ''m'') = Some csv"
    and "files (snd (snd ?p)) (output_txt_path ''out'' ''m'') = Some tsv"
    and "csv = concat (map (\<lambda>parts. join '','' parts @ [CHR 0x0A])
             (map snd (present_targets ?df)
              # map (map (fmt_value sample_runtime)) (rows (fst (extract_table sample_runtime ?df)))))"
    and "tsv = map (\<lambda>c. if c = CHR '','' then CHR 0x09 else c) csv"
    by auto
  then show ?thesis unfolding p1 p2 c by simp
qed

section \<open>The output base name\<close>

lemma run_match_at_iff:
  "run_match_at s = (if run_at s 0 then Some (take 3 s @ takeWhile is_digit (drop 3 s)) else None)"
proof (cases s)
  case Nil
  then show ?thesis by (simp add: run_match_at_def run_at_def)
next
  case s1: (Cons r s')
  show ?thesis
  proof (cases s')
    case Nil
    with s1 show ?thesis by (simp add: run_match_at_def run_at_def)
  next
    case s2: (Cons u s'')
    show ?thesis
    proof (cases s'')
      case Nil
      with s1 s2 show ?thesis by (simp add: run_match_at_def run_at_def)
    next
      case s3: (Cons n rest)
      show ?thesis
      proof (cases rest)
        case Nil
        with s1 s2 s3 show ?thesis by (simp add: run_match_at_def run_at_def)
      next
        case (Cons d rest')
        with s1 s2 s3 show ?thesis
          by (auto simp: run_match_at_def run_at_def)
      qed
    qed
  qed
qed

lemma run_at_Cons: "run_at (c # cs) (Suc k) = run_at cs k"
  by (simp add: run_at_def)

lemma re_search_run_first:
  "run_at s k \<Longrightarrow> \<forall>j<k. \<not> run_at s j \<Longrightarrow>
   re_search_run s = Some (take 3 (drop k s) @ takeWhile is_digit (drop (k + 3) s))"
proof (induction s arbitrary: k)
  case Nil
  then show ?case by (simp add: run_at_def)
next
  case (Cons c cs)
  show ?case
  proof (cases k)
    case 0
    with Cons.prems show ?thesis by (simp add: run_match_at_iff)
  next
    case (Suc k')
    with Cons.prems have n0: "\<not> run_at (c # cs) 0" by blast
    have "run_at cs k'" using Cons.prems(1) Suc by (simp add: run_at_Cons)
    moreover have "\<forall>j<k'. \<not> run_at cs j"
      using Cons.prems(2) Suc run_at_Cons [of c cs] by auto
    ultimately have ih: "re_search_run cs
        = Some (take 3 (drop k' cs) @ takeWhile is_digit (drop (k' + 3) cs))"
      by (rule Cons.IH)
    have e1: "re_search_run (c # cs) = re_search_run cs"
      using n0 by (simp add: run_match_at_iff)
    have e2: "drop (Suc k') (c # cs) = drop k' cs" by simp
    have "Suc k' + 3 = Suc (k' + 3)" by simp
    then have e3: "drop (Suc k' + 3) (c # cs) = drop (k' + 3) cs"
      by (simp only: drop_Suc_Cons)
    show ?thesis unfolding Suc e1 e2 e3 by (rule ih)
  qed
qed

lemma re_search_run_None_iff: "re_search_run s = None \<longleftrightarrow> (\<forall>j. \<not> run_at s j)"
proof (induction s)
  case Nil
  then show ?case by (simp add: run_at_def)
next
  case (Cons c cs)
  have "(\<forall>j. \<not> run_at (c # cs) j) \<longleftrightarrow> \<not> run_at (c # cs) 0 \<and> (\<forall>j. \<not> run_at cs j)"
    using run_at_Cons [of c cs] by (metis not0_implies_Suc)
  with Cons show ?case by (simp add: run_match_at_iff)
qed

lemma rfind_absent: "c \<notin> set p \<Longrightarrow> rfind p c = - 1"
  by (simp add: rfind_def)

lemma rfind_last:
  "c \<notin> set ext \<Longrightarrow> rfind (stem @ c # ext) c = int (length stem)"
proof -
  assume a: "c \<notin> set ext"
  have "takeWhile (\<lambda>x. x \<noteq> c) (rev ext @ c # rev stem) = rev ext"
    using a by (auto simp: takeWhile_tail)
  then show ?thesis by (simp add: rfind_def)
qed

lemma splitext_stem:
  assumes "CHR ''/'' \<notin> set stem" and "CHR ''/'' \<notin> set ext"
    and "CHR ''.'' \<notin> set ext" and "\<exists>c \<in> set stem. c \<noteq> CHR ''.''"
  shows "splitext (stem @ CHR ''.'' # ext) = (stem, CHR ''.'' # ext)"
proof -
  have s: "rfind (stem @ CHR ''.'' # ext) (CHR ''/'') = - 1"
    using assms(1,2) by (simp add: rfind_absent)
  have d: "rfind (stem @ CHR ''.'' # ext) (CHR ''.'') = int (length stem)"
    using assms(3) by (rule rfind_last)
  have "list_ex (\<lambda>c. c \<noteq> CHR ''.'') stem" using assms(4) by (simp add: list_ex_iff)
  then show ?thesis
    unfolding splitext_def s d by (simp add: Let_def)
qed

text \<open>
  Claim C9. Where \<open>Run\<close>, in any case, followed by a digit first occurs in the member path,
  at position \<open>k\<close>, the base name is the archive base name, a hyphen, and the three letters
  found there with all the digits that follow them. When it occurs nowhere, the base name is
  the path with every slash replaced by an underscore and its extension removed as
  \<open>os.path.splitext\<close> removes it: cut at the last dot, when some character before that dot
  is not a dot. So \<open>Run01/ac.z\<close> in \<open>sample.mdat\<close> gives \<open>sample-Run01\<close>, and
  \<open>data/ac.z\<close> gives \<open>data_ac\<close>.
\<close>

theorem base_name_derivation:
  "(run_at name k \<and> (\<forall>j<k. \<not> run_at name j) \<longrightarrow>
      derive_base_name mdat_base name
        = mdat_base @ ''-'' @ take 3 (drop k name) @ takeWhile is_digit (drop (k + 3) name))
   \<and> ((\<forall>j. \<not> run_at name j) \<longrightarrow>
        derive_base_name mdat_base name
          = fst (splitext (map (\<lambda>c. if c = CHR ''/'' then CHR ''_'' else c) name)))
   \<and> ((\<forall>j. \<not> run_at name j) \<and> name = stem @ ''.'' @ ext \<and> CHR ''.'' \<notin> set ext
        \<and> (\<exists>c \<in> set stem. c \<noteq> CHR ''.'') \<longrightarrow>
        derive_base_name mdat_base name = map (\<lambda>c. if c = CHR ''/'' then CHR ''_'' else c) stem)
   \<and> fst (splitext (basename ''./Input_Data_MDAT/sample.mdat'')) = ''sample''
   \<and> derive_base_name ''sample'' ''Run01/ac.z'' = ''sample-Run01''
   \<and> derive_base_name mdat_base ''data/ac.z'' = ''data_ac''"
proof -
  let ?repl = "\<lambda>c. if c = CHR ''/'' then CHR ''_'' else c"
  have a: "run_at name k \<and> (\<forall>j<k. \<not> run_at name j) \<longrightarrow>
      derive_base_name mdat_base name
        = mdat_base @ ''-'' @ take 3 (drop k name) @ takeWhile is_digit (drop (k + 3) name)"
    by (auto simp: derive_base_name_def re_search_run_first)
  have b: "(\<forall>j. \<not> run_at name j) \<longrightarrow>
        derive_base_name mdat_base name = fst (splitext (map ?repl name))"
  proof
    assume "\<forall>j. \<not> run_at name j"
    then have "re_search_run name = None" by (simp add: re_search_run_None_iff)
    then show "derive_base_name mdat_base name = fst (splitext (map ?repl name))"
      by (simp add: derive_base_name_def)
  qed
  have c: "(\<forall>j. \<not> run_at name j) \<and> name = stem @ ''.'' @ ext \<and> CHR ''.'' \<notin> set ext
        \<and> (\<exists>c \<in> set stem. c \<noteq> CHR ''.'') \<longrightarrow>
        derive_base_name mdat_base name = map ?repl stem"
  proof
    assume h: "(\<forall>j. \<not> run_at name j) \<and> name = stem @ ''.'' @ ext \<and> CHR ''.'' \<notin> set ext
        \<and> (\<exists>c \<in> set stem. c \<noteq> CHR ''.'')"
    then have d: "derive_base_name mdat_base name = fst (splitext (map ?repl name))"
      using b by blast
    have m: "map ?repl name = map ?repl stem @ CHR ''.'' # map ?repl ext"
      using h by simp
    have "splitext (map ?repl stem @ CHR ''.'' # map ?repl ext)
          = (map ?repl stem, CHR ''.'' # map ?repl ext)"
    proof (rule splitext_stem)
      show "CHR ''/'' \<notin> set (map ?repl stem)" by auto
      show "CHR ''/'' \<notin> set (map ?repl ext)" by auto
      show "CHR ''.'' \<notin> set (map ?repl ext)" using h by auto
      show "\<exists>c \<in> set (map ?repl stem). c \<noteq> CHR ''.''" using h by auto
    qed
    with d m show "derive_base_name mdat_base name = map ?repl stem" by simp
  qed
  have e1: "fst (splitext (basename ''./Input_Data_MDAT/sample.mdat'')) = ''sample''"
    by code_simp
  have e2: "derive_base_name ''sample'' ''Run01/ac.z'' = ''sample-Run01''" by code_simp
  have "re_search_run ''data/ac.z'' = None" by code_simp
  then have e3: "derive_base_name mdat_base ''data/ac.z'' = ''data_ac''"
    unfolding derive_base_name_def by (simp add: splitext_def rfind_def Let_def)
  from a b c e1 e2 e3 show ?thesis by blast
qed

theorem base_name_derivation_witness:
  "run_at ''a/rUn12x/RUN3.Z'' 2
   \<and> derive_base_name ''sample'' ''a/rUn12x/RUN3.Z'' = ''sample-rUn12''
   \<and> derive_base_name ''sample'' ''dir/sub/ac.v2.Z'' = ''dir_sub_ac.v2''"
proof -
  have r: "run_at ''a/rUn12x/RUN3.Z'' 2" by code_simp
  have n: "\<forall>j<2. \<not> run_at ''a/rUn12x/RUN3.Z'' j"
  proof (intro allI impI)
    fix j :: nat assume "j < 2"
    then have "j = 0 \<or> j = 1" by auto
    moreover have "\<not> run_at ''a/rUn12x/RUN3.Z'' 0" by code_simp
    moreover have "\<not> run_at ''a/rUn12x/RUN3.Z'' 1" by code_simp
    ultimately show "\<not> run_at ''a/rUn12x/RUN3.Z'' j" by auto
  qed
  have v: "take 3 (drop 2 ''a/rUn12x/RUN3.Z'') @ takeWhile is_digit (drop (2 + 3) ''a/rUn12x/RUN3.Z'')
           = ''rUn12''" by code_simp
  have "re_search_run ''dir/sub/ac.v2.Z'' = None" by code_simp
  then have none: "\<forall>j. \<not> run_at ''dir/sub/ac.v2.Z'' j"
    using re_search_run_None_iff [of "''dir/sub/ac.v2.Z''"] by blast
  have st: "''dir/sub/ac.v2.Z'' = ''dir/sub/ac.v2'' @ ''.'' @ ''Z''" by simp
  have nd: "CHR ''.'' \<notin> set ''Z''" by simp
  have ex: "\<exists>c \<in> set ''dir/sub/ac.v2''. c \<noteq> CHR ''.''" by simp
  have mp: "map (\<lambda>c. if c = CHR ''/'' then CHR ''_'' else c) ''dir/sub/ac.v2'' = ''dir_sub_ac.v2''"
    by simp
  have "derive_base_name ''sample'' ''a/rUn12x/RUN3.Z''
          = ''sample'' @ ''-'' @ take 3 (drop 2 ''a/rUn12x/RUN3.Z'')
              @ takeWhile is_digit (drop (2 + 3) ''a/rUn12x/RUN3.Z'')"
    using base_name_derivation [of "''a/rUn12x/RUN3.Z''" 2 "''sample''" "[]" "[]", THEN conjunct1]
      r n by blast
  then have w1: "derive_base_name ''sample'' ''a/rUn12x/RUN3.Z'' = ''sample-rUn12''"
    unfolding v by simp
  have "derive_base_name ''sample'' ''dir/sub/ac.v2.Z''
          = map (\<lambda>c. if c = CHR ''/'' then CHR ''_'' else c) ''dir/sub/ac.v2''"
    using base_name_derivation [of "''dir/sub/ac.v2.Z''" 0 "''sample''" "''dir/sub/ac.v2''" "''Z''",
        THEN conjunct2, THEN conjunct2, THEN conjunct1]
      none st nd ex by blast
  then have w2: "derive_base_name ''sample'' ''dir/sub/ac.v2.Z'' = ''dir_sub_ac.v2''"
    unfolding mp .
  from r w1 w2 show ?thesis by blast
qed

section \<open>The batch\<close>

lemma members_started_simps:
  "members_started [] = []"
  "members_started (xs @ ys) = members_started xs @ members_started ys"
  "members_started (d # xs) = members_started [d] @ members_started xs"
  by (simp_all add: members_started_def)

lemma archives_started_simps:
  "archives_started [] = []"
  "archives_started (xs @ ys) = archives_started xs @ archives_started ys"
  "archives_started (d # xs) = archives_started [d] @ archives_started xs"
  by (simp_all add: archives_started_def)

lemma failure_diag_plain:
  "members_started [failure_diag p e] = [] \<and> archives_started [failure_diag p e] = []"
  by (cases e) (simp_all add: failure_diag_def members_started_def archives_started_def)

lemma extract_table_warn_plain:
  "members_started (snd (extract_table rt df)) = [] \<and> archives_started (snd (extract_table rt df)) = []"
  by (simp add: extract_table_def split_def Let_def members_started_def archives_started_def)

lemma locate_table_diag_plain:
  "locate_table text = Inl d \<Longrightarrow> members_started [d] = [] \<and> archives_started [d] = []"
  by (auto simp: locate_table_def Let_def members_started_def archives_started_def
      split: if_splits)

lemma parse_ascii_content_log_plain:
  "members_started (fst (snd (parse_ascii_content rt text b dir fs))) = []
   \<and> archives_started (fst (snd (parse_ascii_content rt text b dir fs))) = []"
proof (cases "locate_table text")
  case (Inl d)
  then show ?thesis
    using locate_table_diag_plain [OF Inl] by (simp add: parse_ascii_content_skip)
next
  case (Inr p)
  obtain names data where p: "p = (names, data)" by (cases p)
  show ?thesis
  proof (cases "read_csv names data")
    case (Inl e)
    with Inr p show ?thesis
      by (simp add: parse_ascii_content_read_error members_started_def archives_started_def)
  next
    case r: (Inr df)
    with Inr p have pt: "parsed_table text = Some df" by (simp add: parsed_table_def)
    show ?thesis
      using extract_table_warn_plain [of rt df] failure_diag_plain
      by (simp add: parse_ascii_content_table [OF pt] members_started_simps(2)
          archives_started_simps(2) split: option.splits)
        (simp add: members_started_def archives_started_def)
  qed
qed

lemma for_members_log:
  "members_started (fst (snd (for_members rt mb dir entries names fs)))
     = takeWhile (readable entries) names @ take 1 (dropWhile (readable entries) names)
   \<and> archives_started (fst (snd (for_members rt mb dir entries names fs))) = []
   \<and> (fst (for_members rt mb dir entries names fs) = Inr ()
        \<longleftrightarrow> list_all (readable entries) names)"
proof (induction names arbitrary: fs)
  case Nil
  then show ?case by (simp add: members_started_def archives_started_def)
next
  case (Cons n names)
  show ?case
  proof (cases "zip_read entries n")
    case (ReadRaises e)
    then show ?thesis
      by (simp add: readable_def members_started_def archives_started_def)
  next
    case (ReadOk data)
    let ?p = "parse_ascii_content rt data (derive_base_name mb n) dir fs"
    obtain msgs1 fs1 where p: "?p = (Inr (), msgs1, fs1)"
      using parse_ascii_content_never_raises [of rt data "derive_base_name mb n" dir fs]
      by (cases ?p) auto
    have plain: "members_started msgs1 = []" "archives_started msgs1 = []"
      using parse_ascii_content_log_plain [of rt data "derive_base_name mb n" dir fs] p
      by simp_all
    obtain r2 msgs2 fs2 where f: "for_members rt mb dir entries names fs1 = (r2, msgs2, fs2)"
      by (cases "for_members rt mb dir entries names fs1") auto
    have eq: "for_members rt mb dir entries (n # names) fs
          = (r2, ParsingMember n # msgs1 @ msgs2, fs2)"
      using ReadOk p f by (simp add: decode_latin1_def)
    have rd: "readable entries n" using ReadOk by (simp add: readable_def)
    from Cons.IH [of fs1] f
    have ih: "members_started msgs2
       = takeWhile (readable entries) names @ take 1 (dropWhile (readable entries) names)"
      "archives_started msgs2 = []"
      "r2 = Inr () \<longleftrightarrow> list_all (readable entries) names"
      by simp_all
    have m: "members_started (ParsingMember n # msgs1 @ msgs2) = n # members_started msgs2"
      using plain(1) by (simp add: members_started_def)
    have a: "archives_started (ParsingMember n # msgs1 @ msgs2) = archives_started msgs2"
      using plain(2) by (simp add: archives_started_def)
    show ?thesis
      unfolding eq using rd ih m a by simp
  qed
qed

lemma process_mdat_file_never_raises:
  "fst (process_mdat_file rt path dir ar fs) = Inr ()"
  by (simp add: process_mdat_file_def Let_def split_def split: sum.splits exn.splits)

lemma process_mdat_try_archives:
  "archives_started (fst (snd (process_mdat_try rt bn mb dir ar fs))) = []"
proof (cases ar)
  case NotZip
  then show ?thesis by (simp add: process_mdat_try_def archives_started_def)
next
  case (OpenRaises e)
  then show ?thesis by (simp add: process_mdat_try_def archives_started_def)
next
  case (Zip entries)
  have "archives_started (FoundAcFiles k # m) = archives_started m" for k m
    by (simp add: archives_started_def)
  then show ?thesis
    using Zip for_members_log [of rt mb dir entries "ac_files entries" fs]
    by (simp add: process_mdat_try_def Let_def split_def archives_started_def)
qed

lemma process_mdat_file_log:
  "fst (snd (process_mdat_file rt path dir ar fs)) =
     Processing (basename path)
       # fst (snd (process_mdat_try rt (basename path) (fst (splitext (basename path))) dir ar fs))
       @ (case fst (process_mdat_try rt (basename path) (fst (splitext (basename path))) dir ar fs) of
            Inr u \<Rightarrow> []
          | Inl e \<Rightarrow> [if e = BadZipFile then FailBadZip (basename path)
                       else FailUnknown (basename path) e])"
  by (simp add: process_mdat_file_def Let_def split_def split: sum.splits exn.splits)

lemma process_mdat_file_archives:
  "archives_started (fst (snd (process_mdat_file rt path dir ar fs))) = [basename path]"
proof -
  have "archives_started (Processing b # m @ t) = b # archives_started m @ archives_started t"
    for b m t by (simp add: archives_started_def)
  moreover have "archives_started
      (case r of Inr u \<Rightarrow> []
       | Inl e \<Rightarrow> [if e = BadZipFile then FailBadZip b else FailUnknown b e]) = []"
    for r :: "exn + unit" and b
    by (cases r) (auto simp: archives_started_def)
  ultimately show ?thesis
    by (simp add: process_mdat_file_log process_mdat_try_archives)
qed

lemma process_mdat_file_members:
  "members_started (fst (snd (process_mdat_file rt path dir (Zip entries) fs)))
     = takeWhile (readable entries) (ac_files entries)
         @ take 1 (dropWhile (readable entries) (ac_files entries))"
proof -
  let ?t = "process_mdat_try rt (basename path) (fst (splitext (basename path))) dir (Zip entries) fs"
  have tail: "members_started
      (case r of Inr u \<Rightarrow> []
       | Inl e \<Rightarrow> [if e = BadZipFile then FailBadZip b else FailUnknown b e]) = []"
    for r :: "exn + unit" and b
    by (cases r) (auto simp: members_started_def)
  have "members_started (fst (snd ?t))
     = takeWhile (readable entries) (ac_files entries)
         @ take 1 (dropWhile (readable entries) (ac_files entries))"
  proof (cases "ac_files entries = []")
    case True
    then show ?thesis by (simp add: process_mdat_try_def members_started_def)
  next
    case False
    have "members_started (FoundAcFiles k # m) = members_started m" for k m
      by (simp add: members_started_def)
    then show ?thesis
      using False for_members_log [of rt _ dir entries "ac_files entries" fs]
      by (simp add: process_mdat_try_def Let_def split_def)
  qed
  moreover have "members_started (Processing b # m @ t) = members_started m @ members_started t"
    for b m t by (simp add: members_started_def)
  ultimately show ?thesis
    by (simp add: process_mdat_file_log tail)
qed

lemma for_archives_log:
  "fst (for_archives rt found fs) = Inr ()
   \<and> archives_started (fst (snd (for_archives rt found fs))) = map (\<lambda>(p, a). basename p) found"
proof (induction found arbitrary: fs)
  case Nil
  then show ?case by (simp add: archives_started_def)
next
  case (Cons x found)
  obtain path ar where x: "x = (path, ar)" by (cases x)
  let ?p = "process_mdat_file rt path OUTPUT_FOLDER ar fs"
  obtain msgs1 fs1 where p: "?p = (Inr (), msgs1, fs1)"
    using process_mdat_file_never_raises [of rt path OUTPUT_FOLDER ar fs] by (cases ?p) auto
  have a1: "archives_started msgs1 = [basename path]"
    using process_mdat_file_archives [of rt path OUTPUT_FOLDER ar fs] p by simp
  obtain r2 msgs2 fs2 where f: "for_archives rt found fs1 = (r2, msgs2, fs2)"
    by (cases "for_archives rt found fs1") auto
  from Cons.IH [of fs1] f have ih: "r2 = Inr ()"
    "archives_started msgs2 = map (\<lambda>(p, a). basename p) found" by simp_all
  have "for_archives rt (x # found) fs = (r2, msgs1 @ msgs2, fs2)"
    using x p f by simp
  then show ?case using ih a1 x by (simp add: archives_started_simps(2))
qed

lemma main_log:
  assumes "input_exists" and "found \<noteq> []"
  shows "fst (main rt input_exists output_exists found fs) = Inr ()
         \<and> archives_started (fst (snd (main rt input_exists output_exists found fs)))
             = map (\<lambda>(p, a). basename p) found
         \<and> last (fst (snd (main rt input_exists output_exists found fs))) = BatchDone"
proof -
  obtain msgs fs' where f: "for_archives rt found fs = (Inr (), msgs, fs')"
    using for_archives_log [of rt found fs] by (cases "for_archives rt found fs") auto
  have a: "archives_started msgs = map (\<lambda>(p, a). basename p) found"
    using for_archives_log [of rt found fs] f by simp
  have "archives_started (Banner # (if \<not> output_exists then [OutputDirCreated] else [])
          @ FoundMdatFiles k # msgs @ [BatchDone]) = archives_started msgs" for k
    by (simp add: archives_started_def)
  then show ?thesis
    using assms f a by (simp add: main_def Let_def)
qed

lemma parse_ascii_content_log_nonempty:
  "fst (snd (parse_ascii_content rt text b dir fs)) \<noteq> []"
proof (cases "locate_table text")
  case (Inl d)
  then show ?thesis by (simp add: parse_ascii_content_skip)
next
  case (Inr p)
  obtain names data where p: "p = (names, data)" by (cases p)
  show ?thesis
  proof (cases "read_csv names data")
    case (Inl e)
    with Inr p show ?thesis by (simp add: parse_ascii_content_read_error)
  next
    case r: (Inr df)
    with Inr p have "parsed_table text = Some df" by (simp add: parsed_table_def)
    then show ?thesis
      by (simp add: parse_ascii_content_table split: option.splits)
  qed
qed

lemma parse_ascii_content_result:
  "\<exists>m1 fs1. parse_ascii_content rt text b dir fs = (Inr (), m1, fs1) \<and> m1 \<noteq> []"
proof -
  obtain r m1 fs1 where p: "parse_ascii_content rt text b dir fs = (r, m1, fs1)"
    by (cases "parse_ascii_content rt text b dir fs") auto
  with parse_ascii_content_never_raises [of rt "text" b dir fs]
    parse_ascii_content_log_nonempty [of rt "text" b dir fs]
  show ?thesis by simp
qed

lemma for_members_readable_step:
  assumes "zip_read entries n = ReadOk data"
    and "parse_ascii_content rt data (derive_base_name mb n) dir fs = (Inr (), m1, fs1)"
  shows "for_members rt mb dir entries (n # rest) fs =
           (fst (for_members rt mb dir entries rest fs1),
            ParsingMember n # m1 @ fst (snd (for_members rt mb dir entries rest fs1)),
            snd (snd (for_members rt mb dir entries rest fs1)))"
  using assms by (simp add: decode_latin1_def split_def Let_def)

lemma for_members_unreadable_step:
  assumes "zip_read entries n = ReadRaises e"
  shows "for_members rt mb dir entries (n # rest) fs = (Inl e, [ParsingMember n], fs)"
  using assms by simp

lemma for_members_split:
  assumes "list_all (readable entries) pre"
  shows "\<exists>m0 fs0. for_members rt mb dir entries pre fs = (Inr (), m0, fs0)
           \<and> (\<forall>post. for_members rt mb dir entries (pre @ post) fs =
                 (fst (for_members rt mb dir entries post fs0),
                  m0 @ fst (snd (for_members rt mb dir entries post fs0)),
                  snd (snd (for_members rt mb dir entries post fs0))))"
  using assms
proof (induction pre arbitrary: fs)
  case Nil
  then show ?case by simp
next
  case (Cons n pre)
  from Cons.prems obtain data where rd: "zip_read entries n = ReadOk data"
    by (auto simp: readable_def split: member_read.splits)
  obtain m1 fs1 where p: "parse_ascii_content rt data (derive_base_name mb n) dir fs = (Inr (), m1, fs1)"
    using parse_ascii_content_result by blast
  from Cons.prems have "list_all (readable entries) pre" by simp
  from Cons.IH [OF this, of fs1]
  obtain m0 fs0 where ih: "for_members rt mb dir entries pre fs1 = (Inr (), m0, fs0)"
    and ihp: "\<And>post. for_members rt mb dir entries (pre @ post) fs1 =
                 (fst (for_members rt mb dir entries post fs0),
                  m0 @ fst (snd (for_members rt mb dir entries post fs0)),
                  snd (snd (for_members rt mb dir entries post fs0)))"
    by blast
  have a: "for_members rt mb dir entries (n # pre) fs = (Inr (), ParsingMember n # m1 @ m0, fs0)"
    using for_members_readable_step [OF rd p, of pre] ih by simp
  have b: "for_members rt mb dir entries ((n # pre) @ post) fs =
                 (fst (for_members rt mb dir entries post fs0),
                  (ParsingMember n # m1 @ m0) @ fst (snd (for_members rt mb dir entries post fs0)),
                  snd (snd (for_members rt mb dir entries post fs0)))" for post
    using for_members_readable_step [OF rd p, of "pre @ post"] ihp [of post] by simp
  from a b show ?case by blast
qed

lemma for_members_after_failures:
  assumes "list_all (readable entries) pre"
    and "zip_read entries n = ReadOk data"
  shows "\<exists>m0 fs0 m1 fs1.
           for_members rt mb dir entries pre fs = (Inr (), m0, fs0)
           \<and> parse_ascii_content rt data (derive_base_name mb n) dir fs0 = (Inr (), m1, fs1)
           \<and> m1 \<noteq> []
           \<and> for_members rt mb dir entries (pre @ n # post) fs =
                (fst (for_members rt mb dir entries post fs1),
                 m0 @ ParsingMember n # m1 @ fst (snd (for_members rt mb dir entries post fs1)),
                 snd (snd (for_members rt mb dir entries post fs1)))"
proof -
  from for_members_split [OF assms(1), of rt mb dir fs]
  obtain m0 fs0 where a: "for_members rt mb dir entries pre fs = (Inr (), m0, fs0)"
    and b: "\<And>post. for_members rt mb dir entries (pre @ post) fs =
                 (fst (for_members rt mb dir entries post fs0),
                  m0 @ fst (snd (for_members rt mb dir entries post fs0)),
                  snd (snd (for_members rt mb dir entries post fs0)))"
    by blast
  obtain m1 fs1 where p: "parse_ascii_content rt data (derive_base_name mb n) dir fs0 = (Inr (), m1, fs1)"
    and ne: "m1 \<noteq> []"
    using parse_ascii_content_result by blast
  have "for_members rt mb dir entries (pre @ n # post) fs =
                (fst (for_members rt mb dir entries post fs1),
                 m0 @ ParsingMember n # m1 @ fst (snd (for_members rt mb dir entries post fs1)),
                 snd (snd (for_members rt mb dir entries post fs1)))"
    using b [of "n # post"] for_members_readable_step [OF assms(2) p, of post] by simp
  with a p ne show ?thesis by blast
qed

lemma for_members_unreadable:
  assumes "list_all (readable entries) pre"
    and "zip_read entries n = ReadRaises e"
  shows "\<exists>m0 fs0.
           for_members rt mb dir entries pre fs = (Inr (), m0, fs0)
           \<and> for_members rt mb dir entries (pre @ n # post) fs
               = (Inl e, m0 @ [ParsingMember n], fs0)"
proof -
  from for_members_split [OF assms(1), of rt mb dir fs]
  obtain m0 fs0 where a: "for_members rt mb dir entries pre fs = (Inr (), m0, fs0)"
    and b: "\<And>post. for_members rt mb dir entries (pre @ post) fs =
                 (fst (for_members rt mb dir entries post fs0),
                  m0 @ fst (snd (for_members rt mb dir entries post fs0)),
                  snd (snd (for_members rt mb dir entries post fs0)))"
    by blast
  have "for_members rt mb dir entries (pre @ n # post) fs = (Inl e, m0 @ [ParsingMember n], fs0)"
    using b [of "n # post"] for_members_unreadable_step [OF assms(2), of rt mb dir post fs0]
    by simp
  with a show ?thesis by blast
qed

lemma process_mdat_file_zip:
  "process_mdat_file rt path dir (Zip entries) fs =
     (if ac_files entries = []
      then (Inr (), [Processing (basename path), InfoNoAcFiles (basename path)], fs)
      else
        (Inr (),
         Processing (basename path) # FoundAcFiles (length (ac_files entries))
           # fst (snd (for_members rt (fst (splitext (basename path))) dir entries
                         (ac_files entries) fs))
           @ (case fst (for_members rt (fst (splitext (basename path))) dir entries
                          (ac_files entries) fs) of
                Inr u \<Rightarrow> []
              | Inl e \<Rightarrow> [if e = BadZipFile then FailBadZip (basename path)
                           else FailUnknown (basename path) e]),
         snd (snd (for_members rt (fst (splitext (basename path))) dir entries
                     (ac_files entries) fs))))"
  by (simp add: process_mdat_file_def process_mdat_try_def Let_def split_def
      split: sum.splits exn.splits)

lemma process_mdat_file_not_opened:
  "process_mdat_file rt path dir NotZip fs
     = (Inr (), [Processing (basename path), SkipNotZip (basename path)], fs)"
  "process_mdat_file rt path dir (OpenRaises e) fs
     = (Inr (), [Processing (basename path),
                 if e = BadZipFile then FailBadZip (basename path)
                 else FailUnknown (basename path) e], fs)"
  by (simp_all add: process_mdat_file_def process_mdat_try_def Let_def split: exn.splits)

lemma process_mdat_file_result:
  "\<exists>m1 fs1. process_mdat_file rt path dir ar fs = (Inr (), m1, fs1)"
  using process_mdat_file_never_raises [of rt path dir ar fs]
  by (cases "process_mdat_file rt path dir ar fs") auto

lemma for_archives_step:
  assumes "process_mdat_file rt path OUTPUT_FOLDER ar fs = (Inr (), m1, fs1)"
  shows "for_archives rt ((path, ar) # rest) fs =
           (Inr (), m1 @ fst (snd (for_archives rt rest fs1)), snd (snd (for_archives rt rest fs1)))"
  using assms for_archives_log [of rt rest fs1] by (simp add: split_def Let_def)

lemma for_archives_split:
  "\<exists>m0 fs0. for_archives rt pre fs = (Inr (), m0, fs0)
     \<and> (\<forall>post. for_archives rt (pre @ post) fs =
           (Inr (), m0 @ fst (snd (for_archives rt post fs0)),
            snd (snd (for_archives rt post fs0))))"
proof (induction pre arbitrary: fs)
  case Nil
  show ?case using for_archives_log [of rt _ fs] by (simp add: prod_eq_iff)
next
  case (Cons x pre)
  obtain path ar where x: "x = (path, ar)" by (cases x)
  obtain m1 fs1 where p: "process_mdat_file rt path OUTPUT_FOLDER ar fs = (Inr (), m1, fs1)"
    using process_mdat_file_result by blast
  from Cons.IH [of fs1]
  obtain m0 fs0 where ih: "for_archives rt pre fs1 = (Inr (), m0, fs0)"
    and ihp: "\<And>post. for_archives rt (pre @ post) fs1 =
           (Inr (), m0 @ fst (snd (for_archives rt post fs0)),
            snd (snd (for_archives rt post fs0)))"
    by blast
  have a: "for_archives rt (x # pre) fs = (Inr (), m1 @ m0, fs0)"
    using for_archives_step [OF p, of pre] ih x by simp
  have b: "for_archives rt ((x # pre) @ post) fs =
           (Inr (), (m1 @ m0) @ fst (snd (for_archives rt post fs0)),
            snd (snd (for_archives rt post fs0)))" for post
    using for_archives_step [OF p, of "pre @ post"] ihp [of post] x by simp
  from a b show ?case by blast
qed

lemma for_archives_after_failures:
  "\<exists>m0 fs0 m1 fs1.
     for_archives rt pre fs = (Inr (), m0, fs0)
     \<and> process_mdat_file rt path OUTPUT_FOLDER ar fs0 = (Inr (), m1, fs1)
     \<and> for_archives rt (pre @ (path, ar) # post) fs =
          (Inr (), m0 @ m1 @ fst (snd (for_archives rt post fs1)),
           snd (snd (for_archives rt post fs1)))"
proof -
  from for_archives_split [of rt pre fs]
  obtain m0 fs0 where a: "for_archives rt pre fs = (Inr (), m0, fs0)"
    and b: "\<And>post. for_archives rt (pre @ post) fs =
           (Inr (), m0 @ fst (snd (for_archives rt post fs0)),
            snd (snd (for_archives rt post fs0)))"
    by blast
  obtain m1 fs1 where p: "process_mdat_file rt path OUTPUT_FOLDER ar fs0 = (Inr (), m1, fs1)"
    using process_mdat_file_result by blast
  have "for_archives rt (pre @ (path, ar) # post) fs =
          (Inr (), m0 @ m1 @ fst (snd (for_archives rt post fs1)),
           snd (snd (for_archives rt post fs1)))"
    using b [of "(path, ar) # post"] for_archives_step [OF p, of post] by simp
  with a p show ?thesis by blast
qed

lemma main_result:
  assumes "input_exists" and "found \<noteq> []"
  shows "main rt input_exists output_exists found fs =
     (Inr (),
      Banner # (if \<not> output_exists then [OutputDirCreated] else [])
        @ FoundMdatFiles (length found) # fst (snd (for_archives rt found fs)) @ [BatchDone],
      snd (snd (for_archives rt found fs)))"
  using assms for_archives_log [of rt found fs]
  by (simp add: main_def Let_def split_def)



text \<open>
  Claim C5, as stated, fails for a member that cannot be read: \<open>zip_ref.read\<close> is outside the
  inner \<open>try\<close>, its exception is caught by the handlers of \<open>process_mdat_file\<close>, and the
  members that follow in the archive are not processed. Here \<open>b.z\<close> is written when it is
  alone in the archive, and is not reached when the unreadable \<open>a.z\<close> comes first.
\<close>

theorem unreadable_member_counterexample:
  "fst (snd (process_mdat_file sample_runtime ''in/s.mdat'' ''out''
        (Zip [(''a.z'', ReadRaises BadZipFile), (''b.z'', ReadOk (sample_text ''1 2 3''))]) empty_fs))
     = [Processing ''s.mdat'', FoundAcFiles 2, ParsingMember ''a.z'', FailBadZip ''s.mdat'']
   \<and> files (snd (snd (process_mdat_file sample_runtime ''in/s.mdat'' ''out''
        (Zip [(''a.z'', ReadRaises BadZipFile), (''b.z'', ReadOk (sample_text ''1 2 3''))]) empty_fs)))
        ''out/b_extracted.csv'' = None
   \<and> fst (snd (process_mdat_file sample_runtime ''in/s.mdat'' ''out''
        (Zip [(''b.z'', ReadOk (sample_text ''1 2 3''))]) empty_fs))
     = [Processing ''s.mdat'', FoundAcFiles 1, ParsingMember ''b.z'', Success 1 ''b_extracted.csv'']
   \<and> files (snd (snd (process_mdat_file sample_runtime ''in/s.mdat'' ''out''
        (Zip [(''b.z'', ReadOk (sample_text ''1 2 3''))]) empty_fs)))
        ''out/b_extracted.csv''
     = Some (''frequency (Hz),Z_real (Ohm),Z_imag (Ohm)'' @ [CHR 0x0A] @ ''1e0,2e0,3e0'' @ [CHR 0x0A])"
  by code_simp

text \<open>
  Claim C5, amended. No exception leaves \<open>parse_ascii_content\<close> or \<open>process_mdat_file\<close>, and
  each prints at least one message. Whatever happened in the members before it, a member
  whose bytes can be read is parsed, from the file system the earlier members left, and
  whatever comes of it (a skip, a failed parse, an empty result, a failed write, a success)
  the loop goes on with the members after it. A member whose bytes cannot be read ends the
  loop: the members after it are not reached, and the exception is reported by the handlers of
  \<open>process_mdat_file\<close>, as is a failure to open the archive. Whatever happened in the
  archives before it, each archive found is processed, and the batch runs to its end.
\<close>

theorem later_units_processed_after_failures:
  "fst (parse_ascii_content rt text b dir fs) = Inr ()
   \<and> fst (snd (parse_ascii_content rt text b dir fs)) \<noteq> []
   \<and> (list_all (readable entries) pre \<and> zip_read entries n = ReadOk data \<longrightarrow>
        (\<exists>m0 fs0 m1 fs1.
           for_members rt mb dir entries pre fs = (Inr (), m0, fs0)
           \<and> parse_ascii_content rt data (derive_base_name mb n) dir fs0 = (Inr (), m1, fs1)
           \<and> m1 \<noteq> []
           \<and> for_members rt mb dir entries (pre @ n # post) fs =
                (fst (for_members rt mb dir entries post fs1),
                 m0 @ ParsingMember n # m1 @ fst (snd (for_members rt mb dir entries post fs1)),
                 snd (snd (for_members rt mb dir entries post fs1)))))
   \<and> (list_all (readable entries) pre \<and> zip_read entries n = ReadRaises e \<longrightarrow>
        (\<exists>m0 fs0.
           for_members rt mb dir entries pre fs = (Inr (), m0, fs0)
           \<and> for_members rt mb dir entries (pre @ n # post) fs
               = (Inl e, m0 @ [ParsingMember n], fs0)))
   \<and> process_mdat_file rt path dir (Zip entries) fs =
        (if ac_files entries = []
         then (Inr (), [Processing (basename path), InfoNoAcFiles (basename path)], fs)
         else
           (Inr (),
            Processing (basename path) # FoundAcFiles (length (ac_files entries))
              # fst (snd (for_members rt (fst (splitext (basename path))) dir entries
                            (ac_files entries) fs))
              @ (case fst (for_members rt (fst (splitext (basename path))) dir entries
                             (ac_files entries) fs) of
                   Inr u \<Rightarrow> []
                 | Inl e \<Rightarrow> [if e = BadZipFile then FailBadZip (basename path)
                              else FailUnknown (basename path) e]),
            snd (snd (for_members rt (fst (splitext (basename path))) dir entries
                        (ac_files entries) fs))))
   \<and> process_mdat_file rt path dir NotZip fs
        = (Inr (), [Processing (basename path), SkipNotZip (basename path)], fs)
   \<and> process_mdat_file rt path dir (OpenRaises e) fs
        = (Inr (), [Processing (basename path),
                    if e = BadZipFile then FailBadZip (basename path)
                    else FailUnknown (basename path) e], fs)
   \<and> members_started (fst (snd (process_mdat_file rt path dir (Zip entries) fs)))
        = takeWhile (readable entries) (ac_files entries)
            @ take 1 (dropWhile (readable entries) (ac_files entries))
   \<and> archives_started (fst (snd (process_mdat_file rt path dir ar fs))) = [basename path]
   \<and> (\<exists>m0 fs0 m1 fs1.
         for_archives rt found fs = (Inr (), m0, fs0)
         \<and> process_mdat_file rt path OUTPUT_FOLDER ar fs0 = (Inr (), m1, fs1)
         \<and> for_archives rt (found @ (path, ar) # rest) fs =
              (Inr (), m0 @ m1 @ fst (snd (for_archives rt rest fs1)),
               snd (snd (for_archives rt rest fs1))))
   \<and> (input_exists \<and> files_to_process \<noteq> [] \<longrightarrow>
        main rt input_exists output_exists files_to_process fs =
          (Inr (),
           Banner # (if \<not> output_exists then [OutputDirCreated] else [])
             @ FoundMdatFiles (length files_to_process)
             # fst (snd (for_archives rt files_to_process fs)) @ [BatchDone],
           snd (snd (for_archives rt files_to_process fs)))
        \<and> archives_started (fst (snd (main rt input_exists output_exists files_to_process fs)))
            = map (\<lambda>(p, a). basename p) files_to_process)"
proof -
  have c1: "fst (parse_ascii_content rt text b dir fs) = Inr ()"
    by (rule parse_ascii_content_never_raises)
  have c2: "fst (snd (parse_ascii_content rt text b dir fs)) \<noteq> []"
    by (rule parse_ascii_content_log_nonempty)
  have c3: "list_all (readable entries) pre \<and> zip_read entries n = ReadOk data \<longrightarrow>
        (\<exists>m0 fs0 m1 fs1.
           for_members rt mb dir entries pre fs = (Inr (), m0, fs0)
           \<and> parse_ascii_content rt data (derive_base_name mb n) dir fs0 = (Inr (), m1, fs1)
           \<and> m1 \<noteq> []
           \<and> for_members rt mb dir entries (pre @ n # post) fs =
                (fst (for_members rt mb dir entries post fs1),
                 m0 @ ParsingMember n # m1 @ fst (snd (for_members rt mb dir entries post fs1)),
                 snd (snd (for_members rt mb dir entries post fs1))))"
    using for_members_after_failures [of entries pre n data rt mb dir fs post] by blast
  have c4: "list_all (readable entries) pre \<and> zip_read entries n = ReadRaises e \<longrightarrow>
        (\<exists>m0 fs0.
           for_members rt mb dir entries pre fs = (Inr (), m0, fs0)
           \<and> for_members rt mb dir entries (pre @ n # post) fs
               = (Inl e, m0 @ [ParsingMember n], fs0))"
    using for_members_unreadable [of entries pre n e rt mb dir fs post] by blast
  note c5 = process_mdat_file_zip [of rt path dir entries fs]
  note c6 = process_mdat_file_not_opened(1) [of rt path dir fs]
  note c7 = process_mdat_file_not_opened(2) [of rt path dir e fs]
  note c8 = process_mdat_file_members [of rt path dir entries fs]
  note c8' = process_mdat_file_archives [of rt path dir ar fs]
  note c9 = for_archives_after_failures [of rt found fs path ar rest]
  have c10: "input_exists \<and> files_to_process \<noteq> [] \<longrightarrow>
        main rt input_exists output_exists files_to_process fs =
          (Inr (),
           Banner # (if \<not> output_exists then [OutputDirCreated] else [])
             @ FoundMdatFiles (length files_to_process)
             # fst (snd (for_archives rt files_to_process fs)) @ [BatchDone],
           snd (snd (for_archives rt files_to_process fs)))
        \<and> archives_started (fst (snd (main rt input_exists output_exists files_to_process fs)))
            = map (\<lambda>(p, a). basename p) files_to_process"
    using main_result [of input_exists files_to_process rt output_exists fs]
      main_log [of input_exists files_to_process rt output_exists fs]
    by blast
  from c1 c2 c3 c4 c5 c6 c7 c8 c8' c9 c10 show ?thesis by (intro conjI)
qed

theorem later_units_processed_after_failures_witness:
  "fst (snd (for_members sample_runtime ''c'' OUTPUT_FOLDER
       [(''Run01/ac.z'', ReadOk ''no header''), (''Run02/ac.z'', ReadOk (sample_text ''1 2 3''))]
       [''Run01/ac.z'', ''Run02/ac.z''] empty_fs))
     = [ParsingMember ''Run01/ac.z'', SkipNoEndHeader,
        ParsingMember ''Run02/ac.z'', Success 1 ''c-Run02_extracted.csv'']
   \<and> files (snd (snd (for_members sample_runtime ''c'' OUTPUT_FOLDER
       [(''Run01/ac.z'', ReadOk ''no header''), (''Run02/ac.z'', ReadOk (sample_text ''1 2 3''))]
       [''Run01/ac.z'', ''Run02/ac.z''] empty_fs))) ''./Output_Data/c-Run02_extracted.csv''
     = Some (''frequency (Hz),Z_real (Ohm),Z_imag (Ohm)'' @ [CHR 0x0A] @ ''1e0,2e0,3e0'' @ [CHR 0x0A])
   \<and> fst (snd (main sample_runtime True True
       [(''./Input_Data_MDAT/a.mdat'',
           Zip [(''x.z'', ReadRaises BadZipFile), (''y.z'', ReadOk (sample_text ''1 2 3''))]),
        (''./Input_Data_MDAT/b.mdat'', OpenRaises BadZipFile),
        (''./Input_Data_MDAT/c.mdat'',
           Zip [(''Run01/ac.z'', ReadOk ''no header''),
                (''Run02/ac.z'', ReadOk (sample_text ''1 2 3''))])]
       empty_fs))
     = [Banner, FoundMdatFiles 3,
        Processing ''a.mdat'', FoundAcFiles 2, ParsingMember ''x.z'', FailBadZip ''a.mdat'',
        Processing ''b.mdat'', FailBadZip ''b.mdat'',
        Processing ''c.mdat'', FoundAcFiles 2, ParsingMember ''Run01/ac.z'', SkipNoEndHeader,
        ParsingMember ''Run02/ac.z'', Success 1 ''c-Run02_extracted.csv'',
        BatchDone]
   \<and> files (snd (snd (main sample_runtime True True
       [(''./Input_Data_MDAT/a.mdat'',
           Zip [(''x.z'', ReadRaises BadZipFile), (''y.z'', ReadOk (sample_text ''1 2 3''))]),
        (''./Input_Data_MDAT/b.mdat'', OpenRaises BadZipFile),
        (''./Input_Data_MDAT/c.mdat'',
           Zip [(''Run01/ac.z'', ReadOk ''no header''),
                (''Run02/ac.z'', ReadOk (sample_text ''1 2 3''))])]
       empty_fs))) ''./Output_Data/c-Run02_extracted.csv''
     = Some (''frequency (Hz),Z_real (Ohm),Z_imag (Ohm)'' @ [CHR 0x0A] @ ''1e0,2e0,3e0'' @ [CHR 0x0A])"
proof -
  let ?E = "[(''Run01/ac.z'', ReadOk ''no header''), (''Run02/ac.z'', ReadOk (sample_text ''1 2 3''))]"
  let ?F = "[(''./Input_Data_MDAT/a.mdat'',
           Zip [(''x.z'', ReadRaises BadZipFile), (''y.z'', ReadOk (sample_text ''1 2 3''))]),
        (''./Input_Data_MDAT/b.mdat'', OpenRaises BadZipFile),
        (''./Input_Data_MDAT/c.mdat'', Zip ?E)]"
  let ?csv = "''frequency (Hz),Z_real (Ohm),Z_imag (Ohm)'' @ [CHR 0x0A] @ ''1e0,2e0,3e0'' @ [CHR 0x0A]"
  note inst = later_units_processed_after_failures [where rt = sample_runtime and fs = empty_fs
      and mb = "''c''" and dir = OUTPUT_FOLDER and entries = ?E and pre = "[]"
      and n = "''Run01/ac.z''" and data = "''no header''" and post = "[''Run02/ac.z'']"
      and input_exists = True and output_exists = True and files_to_process = ?F]
  have h: "list_all (readable ?E) [] \<and> zip_read ?E ''Run01/ac.z'' = ReadOk ''no header''"
    by code_simp
  from inst [THEN conjunct2, THEN conjunct2, THEN conjunct1, THEN mp, OF h]
  obtain m0 fs0 m1 fs1 where
    a: "for_members sample_runtime ''c'' OUTPUT_FOLDER ?E [] empty_fs = (Inr (), m0, fs0)"
    and p: "parse_ascii_content sample_runtime ''no header'' (derive_base_name ''c'' ''Run01/ac.z'')
              OUTPUT_FOLDER fs0 = (Inr (), m1, fs1)"
    and f: "for_members sample_runtime ''c'' OUTPUT_FOLDER ?E ([] @ ''Run01/ac.z'' # [''Run02/ac.z''])
              empty_fs =
                (fst (for_members sample_runtime ''c'' OUTPUT_FOLDER ?E [''Run02/ac.z''] fs1),
                 m0 @ ParsingMember ''Run01/ac.z'' # m1
                   @ fst (snd (for_members sample_runtime ''c'' OUTPUT_FOLDER ?E [''Run02/ac.z''] fs1)),
                 snd (snd (for_members sample_runtime ''c'' OUTPUT_FOLDER ?E [''Run02/ac.z''] fs1)))"
    by blast
  from a have m0: "m0 = []" and fs0: "fs0 = empty_fs" by simp_all
  have nh: "locate_table ''no header'' = Inl SkipNoEndHeader" by code_simp
  from p have m1: "m1 = [SkipNoEndHeader]" and fs1: "fs1 = empty_fs"
    unfolding fs0 parse_ascii_content_skip [OF nh] by simp_all
  have r1: "fst (snd (for_members sample_runtime ''c'' OUTPUT_FOLDER ?E [''Run02/ac.z''] empty_fs))
              = [ParsingMember ''Run02/ac.z'', Success 1 ''c-Run02_extracted.csv'']"
    by code_simp
  have r2: "files (snd (snd (for_members sample_runtime ''c'' OUTPUT_FOLDER ?E [''Run02/ac.z'']
              empty_fs))) ''./Output_Data/c-Run02_extracted.csv'' = Some ?csv"
    by code_simp
  have w1: "fst (snd (for_members sample_runtime ''c'' OUTPUT_FOLDER ?E
              [''Run01/ac.z'', ''Run02/ac.z''] empty_fs))
     = [ParsingMember ''Run01/ac.z'', SkipNoEndHeader,
        ParsingMember ''Run02/ac.z'', Success 1 ''c-Run02_extracted.csv'']"
    using f unfolding m0 m1 fs1
    by (simp only: append_Nil append_Cons fst_conv snd_conv r1)
  have w2: "files (snd (snd (for_members sample_runtime ''c'' OUTPUT_FOLDER ?E
              [''Run01/ac.z'', ''Run02/ac.z''] empty_fs))) ''./Output_Data/c-Run02_extracted.csv''
     = Some ?csv"
    using f unfolding m0 m1 fs1
    by (simp only: append_Nil fst_conv snd_conv r2)
  have ne: "True \<and> ?F \<noteq> []" by simp
  have mn: "main sample_runtime True True ?F empty_fs =
          (Inr (),
           Banner # (if \<not> True then [OutputDirCreated] else [])
             @ FoundMdatFiles (length ?F)
             # fst (snd (for_archives sample_runtime ?F empty_fs)) @ [BatchDone],
           snd (snd (for_archives sample_runtime ?F empty_fs)))"
    using inst ne by blast
  have a1: "fst (snd (for_archives sample_runtime ?F empty_fs))
     = [Processing ''a.mdat'', FoundAcFiles 2, ParsingMember ''x.z'', FailBadZip ''a.mdat'',
        Processing ''b.mdat'', FailBadZip ''b.mdat'',
        Processing ''c.mdat'', FoundAcFiles 2, ParsingMember ''Run01/ac.z'', SkipNoEndHeader,
        ParsingMember ''Run02/ac.z'', Success 1 ''c-Run02_extracted.csv'']"
    by code_simp
  have a2: "files (snd (snd (for_archives sample_runtime ?F empty_fs)))
              ''./Output_Data/c-Run02_extracted.csv'' = Some ?csv"
    by code_simp
  have w3: "fst (snd (main sample_runtime True True ?F empty_fs))
     = [Banner, FoundMdatFiles 3,
        Processing ''a.mdat'', FoundAcFiles 2, ParsingMember ''x.z'', FailBadZip ''a.mdat'',
        Processing ''b.mdat'', FailBadZip ''b.mdat'',
        Processing ''c.mdat'', FoundAcFiles 2, ParsingMember ''Run01/ac.z'', SkipNoEndHeader,
        ParsingMember ''Run02/ac.z'', Success 1 ''c-Run02_extracted.csv'',
        BatchDone]"
    unfolding mn by (simp only: fst_conv snd_conv a1) simp
  have w4: "files (snd (snd (main sample_runtime True True ?F empty_fs)))
              ''./Output_Data/c-Run02_extracted.csv'' = Some ?csv"
    unfolding mn by (simp only: fst_conv snd_conv a2)
  from w1 w2 w3 w4 show ?thesis by (intro conjI)
qed

end
